theory Spec2Isabelle
  imports Complex_Main "HOL-Library.Sublist" "HOL-Library.AList"
begin

section \<open>JSON values and the Python operations the exporter applies to them\<close>

text \<open>
  The exporter (csurv-export-metadata.py) works on the Python values that \<open>json.load\<close>,
  \<open>json.loads\<close> and \<open>response.json()\<close> produce: None, bool, int, float, str, list and
  dict.  A dict keeps its insertion order, so it is an association list whose first
  binding of a key is the one that counts.  A float is the real number it denotes (NaN
  and the infinities are left out); the program compares floats and passes them on, and
  the one place that adds them takes the addition of doubles as a parameter.  A string is
  a list of 8-bit characters; what writing a string to the output file can raise is the
  concern of the row writer, a parameter as well.
\<close>

datatype json =
    JNull
  | JBool bool
  | JInt int
  | JFloat real
  | JStr string
  | JArr "json list"
  | JObj "(string \<times> json) list"

text \<open>Every \<open>raise\<close> of the program and of the library calls it makes is a value.\<close>

datatype error =
    KeyError string
  | TypeError
  | AttributeError
  | JSONDecodeError
  | HTTPError nat
  | UnicodeEncodeError
  | OverflowError
  | Exception string

definition bind_err :: "error + 'a \<Rightarrow> ('a \<Rightarrow> error + 'b) \<Rightarrow> error + 'b" where
  "bind_err m f = (case m of Inl e \<Rightarrow> Inl e | Inr x \<Rightarrow> f x)"

text \<open>\<open>obj[key]\<close> with a string key.\<close>

definition py_getitem :: "json \<Rightarrow> string \<Rightarrow> error + json" where
  "py_getitem obj k = (case obj of
       JObj kvs \<Rightarrow> (case map_of kvs k of None \<Rightarrow> Inl (KeyError k) | Some v \<Rightarrow> Inr v)
     | _ \<Rightarrow> Inl TypeError)"

text \<open>\<open>obj[key] = v\<close> with a string key: only a dict accepts it.\<close>

definition py_setitem :: "json \<Rightarrow> string \<Rightarrow> json \<Rightarrow> error + json" where
  "py_setitem obj k v = (case obj of
       JObj kvs \<Rightarrow> Inr (JObj (AList.update k v kvs))
     | _ \<Rightarrow> Inl TypeError)"

text \<open>\<open>key in obj\<close> with a string key: a key of a dict, an element of a list, a substring
  of a string; the other values are not iterable.\<close>

definition py_contains :: "string \<Rightarrow> json \<Rightarrow> error + bool" where
  "py_contains k obj = (case obj of
       JObj kvs \<Rightarrow> Inr (map_of kvs k \<noteq> None)
     | JArr xs \<Rightarrow> Inr (List.member xs (JStr k))
     | JStr s \<Rightarrow> Inr (sublist k s)
     | _ \<Rightarrow> Inl TypeError)"

text \<open>\<open>d.update(other)\<close> where \<open>other\<close> is a dict: only a dict has the method.\<close>

definition py_update :: "json \<Rightarrow> (string \<times> json) list \<Rightarrow> error + json" where
  "py_update obj other = (case obj of
       JObj kvs \<Rightarrow> Inr (JObj (AList.updates (map fst other) (map snd other) kvs))
     | _ \<Rightarrow> Inl AttributeError)"

text \<open>\<open>xs.append(v)\<close>: only a list has the method.\<close>

definition py_append :: "json \<Rightarrow> json \<Rightarrow> error + json" where
  "py_append obj v = (case obj of JArr xs \<Rightarrow> Inr (JArr (xs @ [v])) | _ \<Rightarrow> Inl AttributeError)"

text \<open>\<open>d.get(key, default)\<close>: only a dict has the method; a list or a dict cannot be
  hashed as a key; a key that is not a string is no key of a dict read from JSON.\<close>

definition py_get :: "json \<Rightarrow> json \<Rightarrow> json \<Rightarrow> error + json" where
  "py_get obj key dflt = (case obj of
       JObj kvs \<Rightarrow> (case key of
           JStr k \<Rightarrow> Inr (case map_of kvs k of None \<Rightarrow> dflt | Some v \<Rightarrow> v)
         | JArr _ \<Rightarrow> Inl TypeError
         | JObj _ \<Rightarrow> Inl TypeError
         | _ \<Rightarrow> Inr dflt)
     | _ \<Rightarrow> Inl AttributeError)"

text \<open>\<open>len(obj)\<close>.\<close>

definition py_len :: "json \<Rightarrow> error + nat" where
  "py_len obj = (case obj of
       JArr xs \<Rightarrow> Inr (length xs)
     | JObj kvs \<Rightarrow> Inr (length kvs)
     | JStr s \<Rightarrow> Inr (length s)
     | _ \<Rightarrow> Inl TypeError)"

text \<open>The elements \<open>for x in obj\<close> visits: the elements of a list, the keys of a dict,
  the one-character strings of a string.\<close>

definition py_iter :: "json \<Rightarrow> error + json list" where
  "py_iter obj = (case obj of
       JArr xs \<Rightarrow> Inr xs
     | JObj kvs \<Rightarrow> Inr (map (\<lambda>kv. JStr (fst kv)) kvs)
     | JStr s \<Rightarrow> Inr (map (\<lambda>c. JStr [c]) s)
     | _ \<Rightarrow> Inl TypeError)"

text \<open>\<open>obj > 0\<close>: numbers compare (bool is an int), everything else raises.\<close>

definition py_gt_zero :: "json \<Rightarrow> error + bool" where
  "py_gt_zero obj = (case obj of
       JInt n \<Rightarrow> Inr (0 < n)
     | JFloat r \<Rightarrow> Inr (0 < r)
     | JBool b \<Rightarrow> Inr b
     | _ \<Rightarrow> Inl TypeError)"

section \<open>Constants\<close>

definition NUM_SLICES :: nat where "NUM_SLICES = 10"
definition BATCH_SIZE :: nat where "BATCH_SIZE = 10000"
definition SYSTEM_FIELDS :: "string list" where "SYSTEM_FIELDS = [''_id'']"
definition DOC_TYPE :: string where "DOC_TYPE = ''message''"
definition ES_KEEP_ALIVE :: string where "ES_KEEP_ALIVE = ''1m''"

text \<open>The JSON texts of the source, as the values \<open>json.loads\<close> makes of them.\<close>

definition JSON_DOC_TYPE_FILTER :: json where
  "JSON_DOC_TYPE_FILTER = JObj [(''term'', JObj [(''doc_type'', JStr DOC_TYPE)])]"

definition JSON_TRACK_TOTAL_HITS :: "(string \<times> json) list" where
  "JSON_TRACK_TOTAL_HITS = [(''track_total_hits'', JBool True)]"

definition JSON_SLICE :: "(string \<times> json) list" where
  "JSON_SLICE = [(''slice'', JObj [(''id'', JInt (- 1)), (''max'', JInt (int NUM_SLICES))])]"

definition JSON_SIZE :: "(string \<times> json) list" where
  "JSON_SIZE = [(''size'', JInt (int BATCH_SIZE))]"

definition JSON_SORT :: "(string \<times> json) list" where
  "JSON_SORT = [(''sort'', JArr [JStr ''_doc''])]"

definition JSON_SCROLL_BODY :: json where
  "JSON_SCROLL_BODY = JObj [(''scroll'', JStr ES_KEEP_ALIVE), (''scroll_id'', JStr '''')]"

definition VERSION_ES5 :: string where "VERSION_ES5 = ''5''"
definition VERSION_ES7 :: string where "VERSION_ES7 = ''7''"

section \<open>HTTP responses\<close>

text \<open>
  What the program reads of a \<open>requests\<close> response: its status code and its body, which
  \<open>response.json()\<close> either parses or rejects (\<open>None\<close> here).  \<open>raise_for_status\<close> is the
  library's: it raises for the statuses 400 to 599 and returns for every other one.
\<close>

record response =
  status_code :: nat
  body :: "json option"

definition response_json :: "response \<Rightarrow> error + json" where
  "response_json r = (case body r of None \<Rightarrow> Inl JSONDecodeError | Some j \<Rightarrow> Inr j)"

definition raise_for_status :: "response \<Rightarrow> error + unit" where
  "raise_for_status r =
     (if 400 \<le> status_code r \<and> status_code r < 600 then Inl (HTTPError (status_code r))
      else Inr ())"

text \<open>The result is Python's \<open>True\<close>, \<open>False\<close> or, when the last branch falls through,
  \<open>None\<close>.  The last branch formats \<open>response.json()\<close> into its log line first.\<close>

definition check_search_response :: "response \<Rightarrow> error + bool option" where
  "check_search_response r =
     (if status_code r = 200 then Inr (Some True)
      else if status_code r = 404 then Inr (Some False)
      else bind_err (response_json r) (\<lambda>_.
           bind_err (raise_for_status r) (\<lambda>_. Inr None)))"

section \<open>Version detection\<close>

text \<open>\<open>s.split('.')[0]\<close>: the text before the first dot.\<close>

definition split_first :: "string \<Rightarrow> string" where
  "split_first s = takeWhile (\<lambda>c. c \<noteq> CHR ''.'') s"

text \<open>\<open>version_number.split('.')\<close> needs a string.\<close>

definition major_of :: "json \<Rightarrow> error + string" where
  "major_of v = (case v of JStr s \<Rightarrow> Inr (split_first s) | _ \<Rightarrow> Inl AttributeError)"

text \<open>
  The value of \<open>es_version\<close> after \<open>split\<close> is a string, never \<open>None\<close>, so the guard
  \<open>es_version is None and not (...)\<close> has \<open>False\<close> as its first conjunct.  The function
  returns the global it sets.
\<close>

definition check_es_version :: "response \<Rightarrow> error + string" where
  "check_es_version r =
     bind_err (check_search_response r) (\<lambda>_.
     bind_err (response_json r) (\<lambda>result.
     bind_err (py_getitem result ''version'') (\<lambda>version.
     bind_err (py_getitem version ''number'') (\<lambda>version_number.
     bind_err (major_of version_number) (\<lambda>es_version.
       if False \<and> \<not> (es_version = VERSION_ES5 \<or> es_version = VERSION_ES7)
       then Inl (Exception ''Unsupported ES version'')
       else Inr es_version)))))"

section \<open>Query initialisation\<close>

text \<open>
  \<open>init_query\<close> mutates the dict it is given and returns it.  The document comes from
  \<open>json.load\<close>, a tree without sharing, so the nested assignments are written back along
  the path \<open>query\<close>, \<open>bool\<close>, \<open>filter\<close>.
\<close>

definition init_query :: "string \<Rightarrow> json \<Rightarrow> error + json" where
  \<open>init_query es_version query_body =
     bind_err (py_update query_body JSON_SLICE) (\<lambda>q1.
     bind_err (py_update q1 JSON_SIZE) (\<lambda>q2.
     bind_err (py_update q2 JSON_SORT) (\<lambda>q3.
     if es_version = VERSION_ES5 then Inr q3
     else
     bind_err (py_update q3 JSON_TRACK_TOTAL_HITS) (\<lambda>q4.
     bind_err (py_contains ''query'' q4) (\<lambda>has_query.
     if \<not> has_query then Inl (Exception ''JSON query is missing the "query" field.'')
     else
     bind_err (py_getitem q4 ''query'') (\<lambda>query.
     bind_err (py_contains ''bool'' query) (\<lambda>has_bool.
     if \<not> has_bool then Inl (Exception ''JSON query is missing the "bool" field.'')
     else
     bind_err (py_getitem query ''bool'') (\<lambda>bool0.
     bind_err (py_contains ''filter'' bool0) (\<lambda>has_filter.
     bind_err (if \<not> has_filter then py_setitem bool0 ''filter'' (JArr []) else Inr bool0) (\<lambda>bool1.
     bind_err (py_getitem bool1 ''filter'') (\<lambda>filter0.
     bind_err (py_append filter0 JSON_DOC_TYPE_FILTER) (\<lambda>filter1.
     bind_err (py_setitem bool1 ''filter'' filter1) (\<lambda>bool2.
     bind_err (py_setitem query ''bool'' bool2) (\<lambda>query1.
     py_setitem q4 ''query'' query1))))))))))))))\<close>

text \<open>\<open>get_source_fields\<close>: the \<open>includes\<close> list under \<open>_source\<close>, or the empty list.\<close>

definition get_source_fields :: "json \<Rightarrow> error + json" where
  "get_source_fields query_body =
     bind_err (py_contains ''_source'' query_body) (\<lambda>has_source.
     if \<not> has_source then Inr (JArr [])
     else
     bind_err (py_getitem query_body ''_source'') (\<lambda>source.
     bind_err (py_contains ''includes'' source) (\<lambda>has_includes.
     if \<not> has_includes then Inr (JArr [])
     else py_getitem source ''includes'')))"

text \<open>The dict the newer dialect has after the four \<open>update\<close> calls of \<open>init_query\<close>
  (a name for the proofs).\<close>

definition es7_plan :: "(string \<times> json) list \<Rightarrow> (string \<times> json) list" where
  "es7_plan kvs = AList.update ''track_total_hits'' (JBool True)
     (AList.update ''sort'' (JArr [JStr ''_doc''])
       (AList.update ''size'' (JInt (int BATCH_SIZE))
         (AList.update ''slice'' (JObj [(''id'', JInt (- 1)), (''max'', JInt (int NUM_SLICES))]) kvs)))"

text \<open>The path \<open>query\<close>, \<open>bool\<close>, \<open>filter\<close> of a plan.\<close>

definition plan_filter :: "json \<Rightarrow> error + json" where
  "plan_filter plan =
     bind_err (py_getitem plan ''query'') (\<lambda>query.
     bind_err (py_getitem query ''bool'') (\<lambda>b. py_getitem b ''filter''))"

section \<open>Fetching one slice\<close>

text \<open>
  The search engine is outside the program.  A run of one slice is determined by the
  responses it receives: one to the initial search request and one to each scroll
  request, the \<open>k\<close>-th scroll request of the slice receiving \<open>scrolls k\<close>.  The URL, the
  headers and the credentials of a request do not enter any result and are left out; the
  body that is sent is kept.
\<close>

text \<open>\<open>query_body['slice']['id'] = slice_id\<close>, written back into the dict that holds
  \<open>slice\<close>; the result is the dict that \<open>json.dumps\<close> then serialises.\<close>

definition set_slice_id :: "int \<Rightarrow> json \<Rightarrow> error + json" where
  "set_slice_id slice_id query_body =
     bind_err (py_getitem query_body ''slice'') (\<lambda>sl.
     bind_err (py_setitem sl ''id'' (JInt slice_id)) (\<lambda>sl'.
     py_setitem query_body ''slice'' sl'))"

text \<open>The value \<open>check_search_response\<close> returns is dropped by both callers.\<close>

definition get_message_metadata_search :: "int \<Rightarrow> json \<Rightarrow> response \<Rightarrow> error + json" where
  "get_message_metadata_search slice_id query_body r =
     bind_err (set_slice_id slice_id query_body) (\<lambda>data.
     bind_err (check_search_response r) (\<lambda>_.
     response_json r))"

text \<open>\<open>query_body['scroll_id'] = scroll_id\<close> changes the caller's scroll body, so the
  changed body is returned next to the parsed response.\<close>

definition get_message_metadata_scroll :: "json \<Rightarrow> json \<Rightarrow> response \<Rightarrow> error + json \<times> json" where
  "get_message_metadata_scroll scroll_id query_body r =
     bind_err (py_setitem query_body ''scroll_id'' scroll_id) (\<lambda>data.
     bind_err (check_search_response r) (\<lambda>_.
     bind_err (response_json r) (\<lambda>results. Inr (data, results))))"

text \<open>A \<open>for\<close> loop that appends one value per element and stops at the first raise.\<close>

fun collect_values :: "('a \<Rightarrow> error + 'b) \<Rightarrow> 'a list \<Rightarrow> error + 'b list" where
  "collect_values f [] = Inr []"
| "collect_values f (x # xs) =
     bind_err (f x) (\<lambda>v. bind_err (collect_values f xs) (\<lambda>vs. Inr (v # vs)))"

text \<open>The row of one hit (the body of \<open>for hit in hits\<close> up to \<open>writerow\<close>).
  \<open>source_fields\<close> is whatever \<open>get_source_fields\<close> found under \<open>includes\<close>.\<close>

definition hit_values :: "json \<Rightarrow> json \<Rightarrow> error + json list" where
  "hit_values source_fields hit =
     bind_err (if 0 < length SYSTEM_FIELDS
               then collect_values (\<lambda>system_field. py_get hit (JStr system_field) (JStr '''')) SYSTEM_FIELDS
               else Inr []) (\<lambda>sys_values.
     bind_err (py_len source_fields) (\<lambda>n.
     bind_err (if 0 < n
               then bind_err (py_getitem hit ''_source'') (\<lambda>source.
                    bind_err (py_iter source_fields) (\<lambda>fields.
                    collect_values (\<lambda>source_field. py_get source source_field (JStr '''')) fields))
               else Inr []) (\<lambda>src_values.
     Inr (sys_values @ src_values))))"

text \<open>
  \<open>csv_writer\<close>, an argument of \<open>process_slice\<close>, is the \<open>csv.writer\<close> on the output file.
  All the program does with it is \<open>csv_writer.writerow(values)\<close>, so it is that function
  here: it takes a row and returns, or raises (\<open>UnicodeEncodeError\<close> for a string the
  file's encoding cannot write).
\<close>

type_synonym csv_writer = "json list \<Rightarrow> error + unit"

text \<open>\<open>for hit in hits\<close>: every row is written as soon as it is built, so the rows
  written before a raise stay written.\<close>

fun write_batch :: "csv_writer \<Rightarrow> json \<Rightarrow> json list \<Rightarrow> json list list \<Rightarrow> json list list \<times> (error + unit)" where
  "write_batch csv_writer source_fields [] written = (written, Inr ())"
| "write_batch csv_writer source_fields (hit # hits) written =
     (case hit_values source_fields hit of
        Inl e \<Rightarrow> (written, Inl e)
      | Inr values \<Rightarrow>
         (case csv_writer values of
            Inl e \<Rightarrow> (written, Inl e)
          | Inr _ \<Rightarrow> write_batch csv_writer source_fields hits (written @ [values])))"

text \<open>The loop test \<open>total_hits > 0 and len(hits) > 0\<close>; \<open>and\<close> does not evaluate its
  second operand when the first is false.\<close>

definition loop_test :: "json \<Rightarrow> json \<Rightarrow> error + bool" where
  "loop_test total_hits hits =
     bind_err (py_gt_zero total_hits) (\<lambda>positive.
     if \<not> positive then Inr False
     else bind_err (py_len hits) (\<lambda>n. Inr (0 < n)))"

definition hits_of :: "json \<Rightarrow> error + json" where
  "hits_of results = bind_err (py_getitem results ''hits'') (\<lambda>h. py_getitem h ''hits'')"

definition total_hits_of :: "string \<Rightarrow> json \<Rightarrow> error + json" where
  "total_hits_of es_version results =
     (if es_version = VERSION_ES5
      then bind_err (py_getitem results ''hits'') (\<lambda>h. py_getitem h ''total'')
      else bind_err (py_getitem results ''hits'') (\<lambda>h.
           bind_err (py_getitem h ''total'') (\<lambda>t. py_getitem t ''value'')))"

text \<open>
  What a run of one slice leaves behind: the rows it wrote, the number of passes through the
  loop body it completed, and either the value it
  returned or the error it raised.
\<close>

record slice_run =
  rows :: "json list list"
  iterations :: nat
  outcome :: "error + json"

text \<open>
  One pass through the body of the \<open>while\<close> loop, from the first statement to the
  assignment of the next \<open>hits\<close>.  The progress log in the middle reads the clock and
  writes a log line only; it is left out.
\<close>

definition loop_body ::
  "csv_writer \<Rightarrow> json \<Rightarrow> response \<Rightarrow> json \<Rightarrow> json \<Rightarrow> json \<Rightarrow> json list list
     \<Rightarrow> json list list \<times> (error + json \<times> json \<times> json)" where
  "loop_body csv_writer source_fields r scroll_body results hits rows0 =
     (case py_iter hits of
        Inl e \<Rightarrow> (rows0, Inl e)
      | Inr hs \<Rightarrow>
         (case write_batch csv_writer source_fields hs rows0 of
            (rows1, Inl e) \<Rightarrow> (rows1, Inl e)
          | (rows1, Inr _) \<Rightarrow>
              (rows1,
               bind_err (py_getitem results ''_scroll_id'') (\<lambda>scroll_id.
               bind_err (get_message_metadata_scroll scroll_id scroll_body r) (\<lambda>(scroll_body', results').
               bind_err (hits_of results') (\<lambda>hits'.
               Inr (scroll_body', results', hits')))))))"

text \<open>The \<open>while\<close> loop.  Nothing in the program bounds the number of passes: an engine
  that keeps answering with non-empty batches keeps the loop running, and then the
  function has no value.\<close>

partial_function (option) scroll_loop ::
  "csv_writer \<Rightarrow> json \<Rightarrow> (nat \<Rightarrow> response) \<Rightarrow> json \<Rightarrow> nat \<Rightarrow> json \<Rightarrow> json \<Rightarrow> json
     \<Rightarrow> json list list \<Rightarrow> slice_run option" where
  "scroll_loop csv_writer source_fields scrolls total_hits k scroll_body results hits rows0 =
     (case loop_test total_hits hits of
        Inl e \<Rightarrow> Some \<lparr>rows = rows0, iterations = k, outcome = Inl e\<rparr>
      | Inr continue \<Rightarrow>
         if \<not> continue
         then Some \<lparr>rows = rows0, iterations = k, outcome = Inr total_hits\<rparr>
         else
          (case loop_body csv_writer source_fields (scrolls k) scroll_body results hits rows0 of
             (rows1, Inl e) \<Rightarrow> Some \<lparr>rows = rows1, iterations = k, outcome = Inl e\<rparr>
           | (rows1, Inr (scroll_body', results', hits')) \<Rightarrow>
               scroll_loop csv_writer source_fields scrolls total_hits (Suc k) scroll_body' results' hits' rows1))"

definition process_slice ::
  "string \<Rightarrow> int \<Rightarrow> csv_writer \<Rightarrow> json \<Rightarrow> json \<Rightarrow> json \<Rightarrow> response \<Rightarrow> (nat \<Rightarrow> response)
     \<Rightarrow> slice_run option" where
  "process_slice es_version slice_id csv_writer query_body scroll_body source_fields search scrolls =
     (case get_message_metadata_search slice_id query_body search of
        Inl e \<Rightarrow> Some \<lparr>rows = [], iterations = 0, outcome = Inl e\<rparr>
      | Inr results \<Rightarrow>
         (case total_hits_of es_version results of
            Inl e \<Rightarrow> Some \<lparr>rows = [], iterations = 0, outcome = Inl e\<rparr>
          | Inr total_hits \<Rightarrow>
             (case hits_of results of
                Inl e \<Rightarrow> Some \<lparr>rows = [], iterations = 0, outcome = Inl e\<rparr>
              | Inr hits \<Rightarrow>
                  scroll_loop csv_writer source_fields scrolls total_hits 0 scroll_body results hits [])))"

section \<open>The coordinator\<close>

text \<open>The header row: \<open>SYSTEM_FIELDS.copy()\<close> extended by the elements of
  \<open>source_fields\<close>.\<close>

definition header_fields :: "json \<Rightarrow> error + json list" where
  "header_fields source_fields =
     bind_err (py_iter source_fields) (\<lambda>fields. Inr (map JStr SYSTEM_FIELDS @ fields))"

text \<open>
  \<open>a + b\<close> on the numbers of JSON.  Two ints (bool is an int) add exactly.  When a float
  takes part, Python converts an int operand to a double and adds doubles; that operation
  is \<open>float_add\<close>, given the two numbers the operands denote: it rounds, and it raises
  \<open>OverflowError\<close> for an int too large for a double.
\<close>

type_synonym float_add = "real \<Rightarrow> real \<Rightarrow> error + real"

definition as_int :: "json \<Rightarrow> int option" where
  "as_int v = (case v of JInt n \<Rightarrow> Some n | JBool b \<Rightarrow> Some (if b then 1 else 0) | _ \<Rightarrow> None)"

definition as_real :: "json \<Rightarrow> real option" where
  "as_real v = (case v of JFloat r \<Rightarrow> Some r | _ \<Rightarrow> map_option real_of_int (as_int v))"

definition py_add :: "float_add \<Rightarrow> json \<Rightarrow> json \<Rightarrow> error + json" where
  "py_add float_add a b =
     (case (as_int a, as_int b) of
        (Some x, Some y) \<Rightarrow> Inr (JInt (x + y))
      | _ \<Rightarrow> (case (as_real a, as_real b) of
                 (Some x, Some y) \<Rightarrow> bind_err (float_add x y) (\<lambda>r. Inr (JFloat r))
               | _ \<Rightarrow> Inl TypeError))"

text \<open>\<open>for future in as_completed(futures): total_msgs += future.result()\<close>, over
  the outcomes of the futures in the order they complete: \<open>result()\<close> raises what the
  worker raised.\<close>

fun collect_results :: "float_add \<Rightarrow> json \<Rightarrow> (error + json) list \<Rightarrow> error + json" where
  "collect_results float_add total_msgs [] = Inr total_msgs"
| "collect_results float_add total_msgs (r # rs) =
     bind_err r (\<lambda>v. bind_err (py_add float_add total_msgs v) (\<lambda>t.
       collect_results float_add t rs))"

text \<open>
  \<open>save_message_metadata_to_csv\<close>.  The function opens the output file and makes the
  \<open>csv.writer\<close> on it; \<open>csv_writer\<close> is that writer, which gets the header row first
  (opening the file is left out).  Slice \<open>id\<close> receives \<open>searches id\<close> and
  \<open>scrolls id\<close> from the engine.  Every worker gets \<open>copy.deepcopy\<close> of the two bodies,
  which on values is the value itself.  \<open>completion\<close> is the order in which the futures
  complete, a permutation of \<open>range(NUM_SLICES)\<close>.  Leaving the \<open>with\<close> block of the
  executor waits for every worker, also after \<open>result()\<close> has raised, so the function has
  a value only when every slice has one.  The interleaving of the workers' rows in the
  file is not modelled.
\<close>

definition save_message_metadata_to_csv ::
  "csv_writer \<Rightarrow> float_add \<Rightarrow> string \<Rightarrow> json \<Rightarrow> json \<Rightarrow> json
     \<Rightarrow> (nat \<Rightarrow> response) \<Rightarrow> (nat \<Rightarrow> nat \<Rightarrow> response) \<Rightarrow> nat list \<Rightarrow> (error + json) option" where
  "save_message_metadata_to_csv csv_writer float_add es_version query_body scroll_body source_fields
       searches scrolls completion =
     (case bind_err (header_fields source_fields) csv_writer of
        Inl e \<Rightarrow> Some (Inl e)
      | Inr _ \<Rightarrow>
         (let runs = map (\<lambda>id. process_slice es_version (int id) csv_writer query_body scroll_body
                              source_fields (searches id) (scrolls id)) completion
          in if List.member runs None then None
             else Some (collect_results float_add (JInt 0) (map (\<lambda>run. outcome (the run)) runs))))"

text \<open>
  \<open>main\<close>, from the version probe on, with the row writer and the addition of doubles
  of the run.  The result is \<open>None\<close> inside \<open>Inr\<close> when no field
  is configured and nothing is exported, and the total otherwise.
\<close>

definition main ::
  "csv_writer \<Rightarrow> float_add \<Rightarrow> response \<Rightarrow> json \<Rightarrow> (nat \<Rightarrow> response)
     \<Rightarrow> (nat \<Rightarrow> nat \<Rightarrow> response) \<Rightarrow> nat list \<Rightarrow> (error + json option) option" where
  "main csv_writer float_add probe query_doc searches scrolls completion =
     (case check_es_version probe of
        Inl e \<Rightarrow> Some (Inl e)
      | Inr es_version \<Rightarrow>
     (case init_query es_version query_doc of
        Inl e \<Rightarrow> Some (Inl e)
      | Inr query_body \<Rightarrow>
     (case get_source_fields query_body of
        Inl e \<Rightarrow> Some (Inl e)
      | Inr source_fields \<Rightarrow>
     (case py_len source_fields of
        Inl e \<Rightarrow> Some (Inl e)
      | Inr n \<Rightarrow>
         if length SYSTEM_FIELDS + n = 0 then Some (Inr None)
         else map_option (map_sum id Some)
                (save_message_metadata_to_csv csv_writer float_add es_version query_body JSON_SCROLL_BODY
                   source_fields searches scrolls completion)))))"

section \<open>Names used in the statements and sample data\<close>

text \<open>What \<open>d.get(k, '')\<close> gives on the dict \<open>kvs\<close>.\<close>

definition field_of :: "(string \<times> json) list \<Rightarrow> string \<Rightarrow> json" where
  "field_of kvs k = (case map_of kvs k of None \<Rightarrow> JStr '''' | Some v \<Rightarrow> v)"

text \<open>A row writer that writes every row.\<close>

definition accept_row :: csv_writer where
  "accept_row values = Inr ()"

text \<open>An engine that gives the same answer to every request.\<close>

definition always :: "'a \<Rightarrow> nat \<Rightarrow> 'a" where
  "always x k = x"

text \<open>An engine that gives the listed answers in turn and then one answer for ever.\<close>

definition script :: "'a list \<Rightarrow> 'a \<Rightarrow> nat \<Rightarrow> 'a" where
  "script xs x k = (if k < length xs then xs ! k else x)"

text \<open>A search answer of the newer dialect, a hit, a response with a JSON body, a
  compiled plan and its field list.\<close>

definition page :: "string \<Rightarrow> int \<Rightarrow> json list \<Rightarrow> json" where
  "page scroll_id total_hits hits =
     JObj [(''_scroll_id'', JStr scroll_id),
           (''hits'', JObj [(''total'', JObj [(''value'', JInt total_hits), (''relation'', JStr ''eq'')]),
                            (''hits'', JArr hits)])]"

definition doc :: "string \<Rightarrow> (string \<times> json) list \<Rightarrow> json" where
  "doc doc_id source =
     JObj [(''_index'', JStr ''messages''), (''_id'', JStr doc_id), (''_source'', JObj source)]"

definition answer :: "nat \<Rightarrow> json \<Rightarrow> response" where
  "answer status j = \<lparr>status_code = status, body = Some j\<rparr>"

definition sample_plan :: json where
  "sample_plan = JObj (JSON_SLICE @ JSON_SIZE @ JSON_SORT @ JSON_TRACK_TOTAL_HITS
      @ [(''query'', JObj [(''bool'', JObj [(''filter'', JArr [JSON_DOC_TYPE_FILTER])])]),
         (''_source'', JObj [(''includes'', JArr [JStr ''subject'', JStr ''sender''])])])"

definition sample_fields :: json where
  "sample_fields = JArr [JStr ''subject'', JStr ''sender'']"

section \<open>Objects with identity: the copies the workers receive\<close>

text \<open>
  Whether two names denote the same dict matters once a worker assigns into the plan it
  was given.  Here a dict or a list is an object in a store and is held by reference; the
  other values are held as they are.  An address is an index into the store and new
  objects are put at its end.
\<close>

datatype val = VNull | VBool bool | VInt int | VFloat real | VStr string | VRef nat

datatype obj = ODict "(string \<times> val) list" | OList "val list"

type_synonym heap = "obj list"

text \<open>What \<open>json.load\<close> and \<open>json.loads\<close> build: a fresh object for every dict and list
  of the text, the parts before the whole.\<close>

fun store :: "json \<Rightarrow> heap \<Rightarrow> val \<times> heap"
  and store_list :: "json list \<Rightarrow> heap \<Rightarrow> val list \<times> heap"
  and store_fields :: "(string \<times> json) list \<Rightarrow> heap \<Rightarrow> (string \<times> val) list \<times> heap"
where
  "store JNull h = (VNull, h)"
| "store (JBool b) h = (VBool b, h)"
| "store (JInt n) h = (VInt n, h)"
| "store (JFloat r) h = (VFloat r, h)"
| "store (JStr s) h = (VStr s, h)"
| "store (JArr xs) h = (case store_list xs h of (vs, h') \<Rightarrow> (VRef (length h'), h' @ [OList vs]))"
| "store (JObj kvs) h = (case store_fields kvs h of (fs, h') \<Rightarrow> (VRef (length h'), h' @ [ODict fs]))"
| "store_list [] h = ([], h)"
| "store_list (x # xs) h =
     (case store x h of (v, h1) \<Rightarrow> (case store_list xs h1 of (vs, h2) \<Rightarrow> (v # vs, h2)))"
| "store_fields [] h = ([], h)"
| "store_fields (kv # kvs) h =
     (case store (snd kv) h of (v, h1) \<Rightarrow>
        (case store_fields kvs h1 of (fs, h2) \<Rightarrow> ((fst kv, v) # fs, h2)))"

text \<open>
  \<open>copy.deepcopy\<close>: a new object for every dict and list reachable from the value, with
  copies of its parts.  The plan and the scroll body are trees built by \<open>json.load\<close> and
  \<open>json.loads\<close>, so the memo table of \<open>deepcopy\<close>, which matters only for shared or cyclic
  structure, is left out; the first argument bounds the nesting depth that is followed.
\<close>

fun deepcopy :: "nat \<Rightarrow> val \<Rightarrow> heap \<Rightarrow> (val \<times> heap) option"
  and deepcopy_list :: "nat \<Rightarrow> val list \<Rightarrow> heap \<Rightarrow> (val list \<times> heap) option"
where
  "deepcopy n (VRef a) h =
     (case n of
        0 \<Rightarrow> None
      | Suc m \<Rightarrow>
         if a < length h then
           (case h ! a of
              OList vs \<Rightarrow>
                (case deepcopy_list m vs h of
                   None \<Rightarrow> None
                 | Some (vs', h') \<Rightarrow> Some (VRef (length h'), h' @ [OList vs']))
            | ODict fs \<Rightarrow>
                (case deepcopy_list m (map snd fs) h of
                   None \<Rightarrow> None
                 | Some (vs', h') \<Rightarrow> Some (VRef (length h'), h' @ [ODict (zip (map fst fs) vs')])))
         else None)"
| "deepcopy n v h = Some (v, h)"
| "deepcopy_list n [] h = Some ([], h)"
| "deepcopy_list n (v # vs) h =
     (case deepcopy n v h of
        None \<Rightarrow> None
      | Some (v', h1) \<Rightarrow>
         (case deepcopy_list n vs h1 of
            None \<Rightarrow> None
          | Some (vs', h2) \<Rightarrow> Some (v' # vs', h2)))"

text \<open>The JSON tree a value stands for in a store, followed to the given depth.\<close>

fun load :: "nat \<Rightarrow> heap \<Rightarrow> val \<Rightarrow> json option"
  and load_list :: "nat \<Rightarrow> heap \<Rightarrow> val list \<Rightarrow> json list option"
where
  "load n h VNull = Some JNull"
| "load n h (VBool b) = Some (JBool b)"
| "load n h (VInt i) = Some (JInt i)"
| "load n h (VFloat r) = Some (JFloat r)"
| "load n h (VStr s) = Some (JStr s)"
| "load n h (VRef a) =
     (case n of
        0 \<Rightarrow> None
      | Suc m \<Rightarrow>
         if a < length h then
           (case h ! a of
              OList vs \<Rightarrow> map_option JArr (load_list m h vs)
            | ODict fs \<Rightarrow> map_option (\<lambda>js. JObj (zip (map fst fs) js)) (load_list m h (map snd fs)))
         else None)"
| "load_list n h [] = Some []"
| "load_list n h (v # vs) =
     (case load n h v of
        None \<Rightarrow> None
      | Some j \<Rightarrow> map_option (\<lambda>js. j # js) (load_list n h vs))"

text \<open>\<open>obj[key]\<close> and \<open>obj[key] = v\<close> on a reference; the assignment changes the object
  in place.\<close>

definition ref_getitem :: "heap \<Rightarrow> val \<Rightarrow> string \<Rightarrow> error + val" where
  "ref_getitem h obj k = (case obj of
       VRef a \<Rightarrow>
         (if a < length h then
            (case h ! a of
               ODict fs \<Rightarrow> (case map_of fs k of None \<Rightarrow> Inl (KeyError k) | Some v \<Rightarrow> Inr v)
             | OList _ \<Rightarrow> Inl TypeError)
          else Inl TypeError)
     | _ \<Rightarrow> Inl TypeError)"

definition ref_setitem :: "heap \<Rightarrow> val \<Rightarrow> string \<Rightarrow> val \<Rightarrow> error + heap" where
  "ref_setitem h obj k v = (case obj of
       VRef a \<Rightarrow>
         (if a < length h then
            (case h ! a of
               ODict fs \<Rightarrow> Inr (h[a := ODict (AList.update k v fs)])
             | OList _ \<Rightarrow> Inl TypeError)
          else Inl TypeError)
     | _ \<Rightarrow> Inl TypeError)"

text \<open>\<open>query_body['slice']['id'] = slice_id\<close> in \<open>get_message_metadata_search\<close>, on the
  worker's reference.\<close>

definition assign_slice_id :: "int \<Rightarrow> val \<Rightarrow> heap \<Rightarrow> error + heap" where
  "assign_slice_id slice_id query_body h =
     bind_err (ref_getitem h query_body ''slice'') (\<lambda>sl.
     ref_setitem h sl ''id'' (VInt slice_id))"

text \<open>\<open>query_body['scroll_id'] = scroll_id\<close> in \<open>get_message_metadata_scroll\<close>, on the
  worker's reference to its scroll body.\<close>

definition assign_scroll_id :: "val \<Rightarrow> val \<Rightarrow> heap \<Rightarrow> error + heap" where
  "assign_scroll_id scroll_id query_body h = ref_setitem h query_body ''scroll_id'' scroll_id"

text \<open>The loop \<open>for id in range(NUM_SLICES)\<close> of the coordinator: each \<open>submit\<close> is handed
  \<open>copy.deepcopy(query_body)\<close> and \<open>copy.deepcopy(scroll_body)\<close>.  The result lists the two
  references every worker holds.\<close>

fun submit_all :: "nat \<Rightarrow> val \<Rightarrow> val \<Rightarrow> nat list \<Rightarrow> heap \<Rightarrow> ((val \<times> val) list \<times> heap) option" where
  "submit_all n query_body scroll_body [] h = Some ([], h)"
| "submit_all n query_body scroll_body (i # ids) h =
     (case deepcopy n query_body h of
        None \<Rightarrow> None
      | Some (q, h1) \<Rightarrow>
         (case deepcopy n scroll_body h1 of
            None \<Rightarrow> None
          | Some (s, h2) \<Rightarrow>
             (case submit_all n query_body scroll_body ids h2 of
                None \<Rightarrow> None
              | Some (cs, h3) \<Rightarrow> Some ((q, s) # cs, h3))))"

text \<open>Names for the proofs: a value that, if a reference, points into the addresses
  from \<open>lo\<close> up to \<open>hi\<close>; the values an object holds; a range of addresses whose objects
  hold references into the range only; a list of references that occupy consecutive
  ranges of that kind, one each; and the references handed to the workers, in the order
  they were made.\<close>

definition fresh :: "nat \<Rightarrow> nat \<Rightarrow> val \<Rightarrow> bool" where
  "fresh lo hi v = (case v of VRef a \<Rightarrow> lo \<le> a \<and> a < hi | _ \<Rightarrow> True)"

definition obj_vals :: "obj \<Rightarrow> val list" where
  "obj_vals ob = (case ob of OList vs \<Rightarrow> vs | ODict fs \<Rightarrow> map snd fs)"

definition closed :: "nat \<Rightarrow> nat \<Rightarrow> heap \<Rightarrow> bool" where
  "closed lo hi h = (hi \<le> length h \<and> (\<forall>a. lo \<le> a \<and> a < hi \<longrightarrow> (\<forall>v \<in> set (obj_vals (h ! a)). fresh lo hi v)))"

fun isolated :: "nat \<Rightarrow> val list \<Rightarrow> nat \<Rightarrow> heap \<Rightarrow> bool" where
  "isolated lo [] hi h = (lo \<le> hi)"
| "isolated lo (v # vs) hi h =
     (\<exists>mid. lo \<le> mid \<and> closed lo mid h \<and> fresh lo mid v \<and> isolated mid vs hi h)"

fun handed :: "(val \<times> val) list \<Rightarrow> val list" where
  "handed [] = []"
| "handed (c # cs) = fst c # snd c # handed cs"

text \<open>A store holding a scroll body and a plan, as \<open>main\<close> has built them when the
  coordinator starts: the references to the plan and to the scroll body, and the store.\<close>

definition template :: "val \<times> val \<times> heap" where
  "template = (case store JSON_SCROLL_BODY [] of (s, h1) \<Rightarrow>
                (case store (JObj (JSON_SLICE @ JSON_SIZE @ JSON_SORT)) h1 of (q, h2) \<Rightarrow> (q, s, h2)))"

section \<open>Helper lemmas\<close>

lemma bind_err_simps [simp]:
  "bind_err (Inl e) f = Inl e"
  "bind_err (Inr x) f = f x"
  by (simp_all add: bind_err_def)

lemma bind_err_Inr: "bind_err m f = Inr y \<Longrightarrow> \<exists>x. m = Inr x \<and> f x = Inr y"
  by (cases m) simp_all

lemmas json_texts = JSON_SLICE_def JSON_SIZE_def JSON_SORT_def JSON_TRACK_TOTAL_HITS_def

text \<open>The dict of the newer dialect after the four \<open>update\<close> calls.\<close>

lemma es7_plan_query: "map_of (es7_plan kvs) ''query'' = map_of kvs ''query''"
  by (simp add: es7_plan_def update_conv')

lemma es7_plan_keys:
  "map_of (es7_plan kvs) ''slice'' = Some (JObj [(''id'', JInt (- 1)), (''max'', JInt (int NUM_SLICES))])"
  "map_of (es7_plan kvs) ''size'' = Some (JInt (int BATCH_SIZE))"
  "map_of (es7_plan kvs) ''sort'' = Some (JArr [JStr ''_doc''])"
  by (simp_all add: es7_plan_def update_conv')

lemma init_query_no_query:
  \<open>ev \<noteq> VERSION_ES5 \<Longrightarrow> map_of kvs ''query'' = None \<Longrightarrow>
   init_query ev (JObj kvs) = Inl (Exception ''JSON query is missing the "query" field.'')\<close>
  by (simp add: init_query_def py_update_def py_contains_def json_texts update_conv')

lemma init_query_with_query:
  \<open>ev \<noteq> VERSION_ES5 \<Longrightarrow> map_of kvs ''query'' = Some query \<Longrightarrow>
   init_query ev (JObj kvs) =
     bind_err (py_contains ''bool'' query) (\<lambda>has_bool.
     if \<not> has_bool then Inl (Exception ''JSON query is missing the "bool" field.'')
     else
     bind_err (py_getitem query ''bool'') (\<lambda>bool0.
     bind_err (py_contains ''filter'' bool0) (\<lambda>has_filter.
     bind_err (if \<not> has_filter then py_setitem bool0 ''filter'' (JArr []) else Inr bool0) (\<lambda>bool1.
     bind_err (py_getitem bool1 ''filter'') (\<lambda>filter0.
     bind_err (py_append filter0 JSON_DOC_TYPE_FILTER) (\<lambda>filter1.
     bind_err (py_setitem bool1 ''filter'' filter1) (\<lambda>bool2.
     bind_err (py_setitem query ''bool'' bool2) (\<lambda>query1.
     py_setitem (JObj (es7_plan kvs)) ''query'' query1))))))))\<close>
  unfolding es7_plan_def
  by (simp add: init_query_def py_update_def py_contains_def[of "''query''"]
       py_getitem_def[of "JObj _" "''query''"] json_texts update_conv')

lemma init_query_with_bool:
  assumes ev: "ev \<noteq> VERSION_ES5"
    and q: "map_of kvs ''query'' = Some (JObj qk)"
    and b: "map_of qk ''bool'' = Some (JObj bk)"
  shows "init_query ev (JObj kvs) =
     bind_err (if map_of bk ''filter'' = None
               then Inr (JObj (AList.update ''filter'' (JArr []) bk)) else Inr (JObj bk)) (\<lambda>bool1.
     bind_err (py_getitem bool1 ''filter'') (\<lambda>filter0.
     bind_err (py_append filter0 JSON_DOC_TYPE_FILTER) (\<lambda>filter1.
     bind_err (py_setitem bool1 ''filter'' filter1) (\<lambda>bool2.
     bind_err (py_setitem (JObj qk) ''bool'' bool2) (\<lambda>query1.
     py_setitem (JObj (es7_plan kvs)) ''query'' query1)))))"
  using b
  by (simp add: init_query_with_query[OF ev q] py_contains_def py_getitem_def[of "JObj qk"]
       py_setitem_def[of "JObj bk"])

section \<open>Version detection: the guard never fires\<close>

text \<open>
  C2.  The claim is that a probe whose major version is neither 5 nor 7 makes
  \<open>check_es_version\<close> raise the unsupported-version error.  The code does not: at the
  probe answer \<open>{"version": {"number": "6.8.23"}}\<close> with status 200 it returns
  normally and leaves \<open>es_version = "6"\<close>.
\<close>

theorem check_es_version_accepts_6:
  "check_es_version \<lparr>status_code = 200,
      body = Some (JObj [(''version'', JObj [(''number'', JStr ''6.8.23'')])])\<rparr> = Inr ''6''"
  by (simp add: check_es_version_def check_search_response_def response_json_def
      py_getitem_def major_of_def split_first_def)

section \<open>Compiling the query\<close>

text \<open>
  C4.  Whatever the query document held under \<open>slice\<close>, \<open>size\<close> and \<open>sort\<close>, a plan that
  \<open>init_query\<close> returns has \<open>slice = {id: -1, max: NUM_SLICES}\<close>, \<open>size = BATCH_SIZE\<close> and
  \<open>sort = ["_doc"]\<close>, for either dialect.
\<close>

theorem init_query_fixed_keys:
  assumes "init_query es_version q = Inr plan"
  shows "py_getitem plan ''slice'' = Inr (JObj [(''id'', JInt (- 1)), (''max'', JInt (int NUM_SLICES))])
       \<and> py_getitem plan ''size'' = Inr (JInt (int BATCH_SIZE))
       \<and> py_getitem plan ''sort'' = Inr (JArr [JStr ''_doc''])"
proof (cases q)
  case (JObj kvs)
  show ?thesis
  proof (cases "es_version = VERSION_ES5")
    case True
    with assms JObj
    have "plan = JObj (AList.update ''sort'' (JArr [JStr ''_doc''])
       (AList.update ''size'' (JInt (int BATCH_SIZE))
         (AList.update ''slice'' (JObj [(''id'', JInt (- 1)), (''max'', JInt (int NUM_SLICES))]) kvs)))"
      by (simp add: init_query_def py_update_def json_texts)
    then show ?thesis by (simp add: py_getitem_def update_conv')
  next
    case False
    show ?thesis
    proof (cases "map_of kvs ''query''")
      case None
      with assms JObj False show ?thesis by (simp add: init_query_no_query)
    next
      case (Some query)
      from assms[unfolded JObj init_query_with_query[OF False Some]]
      have "\<exists>query1. plan = JObj (AList.update ''query'' query1 (es7_plan kvs))"
        by (auto dest!: bind_err_Inr simp: py_setitem_def split: if_splits) blast+
      then show ?thesis by (auto simp: py_getitem_def update_conv' es7_plan_keys)
    qed
  qed
qed (use assms in \<open>simp_all add: init_query_def py_update_def\<close>)

theorem init_query_fixed_keys_witness:
  "\<exists>plan. init_query ''7'' (JObj [(''size'', JInt 5), (''sort'', JArr [JStr ''timestamp'']),
              (''slice'', JObj [(''id'', JInt 0), (''max'', JInt 2)]),
              (''query'', JObj [(''bool'', JObj [])])]) = Inr plan
     \<and> py_getitem plan ''slice'' = Inr (JObj [(''id'', JInt (- 1)), (''max'', JInt (int NUM_SLICES))])
     \<and> py_getitem plan ''size'' = Inr (JInt (int BATCH_SIZE))
     \<and> py_getitem plan ''sort'' = Inr (JArr [JStr ''_doc''])"
proof -
  obtain plan where run: "init_query ''7'' (JObj [(''size'', JInt 5), (''sort'', JArr [JStr ''timestamp'']),
              (''slice'', JObj [(''id'', JInt 0), (''max'', JInt 2)]),
              (''query'', JObj [(''bool'', JObj [])])]) = Inr plan"
    by (simp add: init_query_def py_update_def py_contains_def py_getitem_def py_setitem_def
        py_append_def json_texts VERSION_ES5_def)
  from init_query_fixed_keys[OF run] run show ?thesis by blast
qed

text \<open>
  C5.  For the newer dialect (every detected version other than 5) \<open>init_query\<close> raises
  for every query document that has no \<open>query\<close> key, and for every one whose \<open>query\<close>
  value has no \<open>bool\<close> key.  \<open>init_query\<close> issues no request, and \<open>main\<close> stops with that
  error whatever the engine would have answered to a search: no search request is made.
\<close>

theorem init_query_es7_requires_bool:
  assumes probe: "check_es_version probe = Inr es_version"
    and ev: "es_version \<noteq> VERSION_ES5"
    and lacks: "isl (py_getitem q ''query'')
         \<or> (\<exists>v. py_getitem q ''query'' = Inr v \<and> isl (py_getitem v ''bool''))"
  shows "\<exists>e. init_query es_version q = Inl e
           \<and> (\<forall>csv_writer float_add searches scrolls completion.
                 main csv_writer float_add probe q searches scrolls completion = Some (Inl e))"
proof -
  have "isl (init_query es_version q)"
  proof (cases q)
    case (JObj kvs)
    show ?thesis
    proof (cases "map_of kvs ''query''")
      case None
      then show ?thesis using ev JObj by (simp add: init_query_no_query)
    next
      case (Some query)
      with lacks JObj have nb: "isl (py_getitem query ''bool'')"
        by (simp add: py_getitem_def)
      have \<open>isl (bind_err (py_contains ''bool'' query) (\<lambda>has_bool.
              if \<not> has_bool then Inl (Exception ''JSON query is missing the "bool" field.'')
              else bind_err (py_getitem query ''bool'') f))\<close> for f
        using nb by (cases "py_contains ''bool'' query"; cases "py_getitem query ''bool''") simp_all
      then show ?thesis using ev JObj Some by (simp add: init_query_with_query)
    qed
  qed (simp_all add: init_query_def py_update_def)
  then obtain e where e: "init_query es_version q = Inl e"
    by (cases "init_query es_version q") simp_all
  then show ?thesis by (simp add: main_def probe)
qed

theorem init_query_es7_requires_bool_witness:
  "\<exists>e. init_query ''7'' (JObj [(''query'', JObj [(''match_all'', JObj [])])]) = Inl e
     \<and> (\<forall>csv_writer float_add searches scrolls completion.
           main csv_writer float_add \<lparr>status_code = 200,
                  body = Some (JObj [(''version'', JObj [(''number'', JStr ''7.17.0'')])])\<rparr>
             (JObj [(''query'', JObj [(''match_all'', JObj [])])]) searches scrolls completion
           = Some (Inl e))"
proof -
  have probe: "check_es_version \<lparr>status_code = 200,
      body = Some (JObj [(''version'', JObj [(''number'', JStr ''7.17.0'')])])\<rparr> = Inr ''7''"
    by (simp add: check_es_version_def check_search_response_def response_json_def
        py_getitem_def major_of_def split_first_def)
  have ev: "''7'' \<noteq> VERSION_ES5" by (simp add: VERSION_ES5_def)
  have lacks: "isl (py_getitem (JObj [(''query'', JObj [(''match_all'', JObj [])])]) ''query'')
      \<or> (\<exists>v. py_getitem (JObj [(''query'', JObj [(''match_all'', JObj [])])]) ''query'' = Inr v
            \<and> isl (py_getitem v ''bool''))"
    by (simp add: py_getitem_def)
  from init_query_es7_requires_bool[OF probe ev lacks] show ?thesis .
qed

text \<open>
  C6.  For the newer dialect, a query document whose \<open>query\<close> value holds a dict under
  \<open>bool\<close> compiles: when that dict has no \<open>filter\<close> key, the plan's filter list is exactly
  the injected \<open>doc_type\<close> term filter; when it has a filter list, the plan's filter list
  is that list with the one clause appended.
\<close>

theorem init_query_es7_filter:
  assumes ev: "es_version \<noteq> VERSION_ES5"
    and q: "py_getitem q ''query'' = Inr query"
    and b: "py_getitem query ''bool'' = Inr (JObj bk)"
  shows "(map_of bk ''filter'' = None \<longrightarrow>
           (\<exists>plan. init_query es_version q = Inr plan
              \<and> plan_filter plan = Inr (JArr [JSON_DOC_TYPE_FILTER])))
       \<and> (\<forall>fs. map_of bk ''filter'' = Some (JArr fs) \<longrightarrow>
           (\<exists>plan. init_query es_version q = Inr plan
              \<and> plan_filter plan = Inr (JArr (fs @ [JSON_DOC_TYPE_FILTER]))))"
proof -
  from q obtain kvs where qo: "q = JObj kvs" and mq: "map_of kvs ''query'' = Some query"
    by (cases q) (auto simp: py_getitem_def split: option.splits)
  from b obtain qk where qq: "query = JObj qk" and mb: "map_of qk ''bool'' = Some (JObj bk)"
    by (cases query) (auto simp: py_getitem_def split: option.splits)
  note step = init_query_with_bool[OF ev mq[unfolded qq] mb]
  have absent: "map_of bk ''filter'' = None \<Longrightarrow>
      \<exists>plan. init_query es_version q = Inr plan
         \<and> plan_filter plan = Inr (JArr [JSON_DOC_TYPE_FILTER])"
    by (simp add: qo step py_getitem_def py_append_def py_setitem_def plan_filter_def update_conv')
  have present: "map_of bk ''filter'' = Some (JArr fs) \<Longrightarrow>
      \<exists>plan. init_query es_version q = Inr plan
         \<and> plan_filter plan = Inr (JArr (fs @ [JSON_DOC_TYPE_FILTER]))" for fs
    by (simp add: qo step py_getitem_def py_append_def py_setitem_def plan_filter_def update_conv')
  from absent present show ?thesis by blast
qed

theorem init_query_es7_filter_witness:
  "(\<exists>plan. init_query ''7'' (JObj [(''query'', JObj [(''bool'', JObj [])])]) = Inr plan
       \<and> plan_filter plan = Inr (JArr [JSON_DOC_TYPE_FILTER]))
   \<and> (\<exists>plan. init_query ''7'' (JObj [(''query'', JObj [(''bool'',
                 JObj [(''filter'', JArr [JObj [(''exists'', JObj [(''field'', JStr ''subject'')])]])])])]) = Inr plan
       \<and> plan_filter plan = Inr (JArr [JObj [(''exists'', JObj [(''field'', JStr ''subject'')])],
                                        JSON_DOC_TYPE_FILTER]))"
proof -
  have ev: "''7'' \<noteq> VERSION_ES5" by (simp add: VERSION_ES5_def)
  have a: "\<exists>plan. init_query ''7'' (JObj [(''query'', JObj [(''bool'', JObj [])])]) = Inr plan
       \<and> plan_filter plan = Inr (JArr [JSON_DOC_TYPE_FILTER])"
    using init_query_es7_filter[OF ev, of "JObj [(''query'', JObj [(''bool'', JObj [])])]"
        "JObj [(''bool'', JObj [])]" "[]"]
    by (simp add: py_getitem_def)
  have p: "\<exists>plan. init_query ''7'' (JObj [(''query'', JObj [(''bool'',
                 JObj [(''filter'', JArr [JObj [(''exists'', JObj [(''field'', JStr ''subject'')])]])])])]) = Inr plan
       \<and> plan_filter plan = Inr (JArr [JObj [(''exists'', JObj [(''field'', JStr ''subject'')])],
                                        JSON_DOC_TYPE_FILTER])"
    using init_query_es7_filter[OF ev, of "JObj [(''query'', JObj [(''bool'',
                 JObj [(''filter'', JArr [JObj [(''exists'', JObj [(''field'', JStr ''subject'')])]])])])]"
        "JObj [(''bool'', JObj [(''filter'', JArr [JObj [(''exists'', JObj [(''field'', JStr ''subject'')])]])])]"
        "[(''filter'', JArr [JObj [(''exists'', JObj [(''field'', JStr ''subject'')])]])]"]
    by (simp add: py_getitem_def)
  from a p show ?thesis by blast
qed

text \<open>
  C10.  For the dialect of version 5, \<open>init_query\<close> returns for every query document that
  is a JSON object, after the three merges and nothing else: the plan maps \<open>slice\<close>,
  \<open>size\<close> and \<open>sort\<close> to the constants and every other key, \<open>query\<close> and
  \<open>track_total_hits\<close> among them, to what the document held (or to nothing, if it held
  nothing).  No \<open>query\<close> or \<open>bool\<close> key is required.
\<close>

theorem init_query_es5:
  "\<exists>plan. init_query VERSION_ES5 (JObj kvs) = Inr (JObj plan)
     \<and> map_of plan = (map_of kvs)
          (''slice'' \<mapsto> JObj [(''id'', JInt (- 1)), (''max'', JInt (int NUM_SLICES))],
           ''size'' \<mapsto> JInt (int BATCH_SIZE),
           ''sort'' \<mapsto> JArr [JStr ''_doc''])"
  by (simp add: init_query_def py_update_def json_texts update_conv')

section \<open>A 404 answer to the initial search\<close>

text \<open>
  C1.  The claim is that a 404 answer to the initial search request gives zero rows and
  a hit count of zero and lets \<open>process_slice\<close> return 0.  \<open>check_search_response\<close> does
  return \<open>False\<close> for it, but \<open>get_message_metadata_search\<close> drops that value and hands
  the body of the answer to \<open>process_slice\<close>, which looks for \<open>hits\<close> in it.  At the body
  the engine sends with a 404, an error object, the lookup raises \<open>KeyError\<close>.
\<close>

theorem process_slice_404_raises:
  "process_slice ''7'' 3 csv_writer (JObj (JSON_SLICE @ JSON_SIZE @ JSON_SORT)) JSON_SCROLL_BODY
     (JArr [JStr ''subject''])
     \<lparr>status_code = 404,
      body = Some (JObj [(''error'', JObj [(''type'', JStr ''index_not_found_exception'')]),
                         (''status'', JInt 404)])\<rparr>
     scrolls
   = Some \<lparr>rows = [], iterations = 0, outcome = Inl (KeyError ''hits'')\<rparr>"
  by (simp add: process_slice_def get_message_metadata_search_def set_slice_id_def json_texts
      py_getitem_def py_setitem_def check_search_response_def response_json_def
      total_hits_of_def VERSION_ES5_def)

section \<open>Rows\<close>

lemma collect_values_length: "collect_values f xs = Inr vs \<Longrightarrow> length vs = length xs"
  by (induction xs arbitrary: vs) (auto dest!: bind_err_Inr)

lemma collect_values_total:
  "(\<And>x. x \<in> set xs \<Longrightarrow> f x = Inr (g x)) \<Longrightarrow> collect_values f xs = Inr (map g xs)"
  by (induction xs) simp_all

lemma py_iter_len: "py_len v = Inr n \<Longrightarrow> \<exists>xs. py_iter v = Inr xs \<and> length xs = n"
  by (cases v) (auto simp: py_len_def py_iter_def)

lemma hit_values_length:
  assumes "hit_values sf hit = Inr vs" "py_len sf = Inr n"
  shows "length vs = length SYSTEM_FIELDS + n"
  using assms py_iter_len[OF assms(2)]
  by (auto simp: hit_values_def dest!: bind_err_Inr collect_values_length split: if_splits)

lemma header_fields_length:
  assumes "header_fields sf = Inr header" "py_len sf = Inr n"
  shows "length header = length SYSTEM_FIELDS + n"
  using assms py_iter_len[OF assms(2)]
  by (auto simp: header_fields_def dest!: bind_err_Inr)

lemma collect_system_values:
  "collect_values (\<lambda>system_field. py_get (JObj h) (JStr system_field) (JStr '''')) fs
     = Inr (map (field_of h) fs)"
  by (induction fs) (simp_all add: py_get_def field_of_def)

lemma collect_source_values:
  "collect_values (\<lambda>source_field. py_get (JObj src) source_field (JStr '''')) (map JStr names)
     = Inr (map (field_of src) names)"
  by (induction names) (simp_all add: py_get_def field_of_def)

lemma hit_values_object:
  assumes "map_of h ''_source'' = Some (JObj src)"
  shows "hit_values (JArr (map JStr names)) (JObj h)
       = Inr (map (field_of h) SYSTEM_FIELDS @ map (field_of src) names)"
  using assms
  by (simp add: hit_values_def collect_system_values collect_source_values py_len_def
      py_iter_def py_getitem_def)

text \<open>
  A row that is built has \<open>len(SYSTEM_FIELDS) + len(source_fields)\<close> values, as many as
  the header.  For a hit that is an object carrying its document under \<open>_source\<close>, and a
  list of field names, the row is built, and a field the document does not have gives the
  empty string at its position.
\<close>

lemma row_width_and_missing_fields:
  "(\<forall>vs header n. hit_values sf hit = Inr vs \<and> header_fields sf = Inr header \<and> py_len sf = Inr n
       \<longrightarrow> length vs = length SYSTEM_FIELDS + n \<and> length vs = length header)
   \<and> (\<forall>h src names. hit = JObj h \<and> map_of h ''_source'' = Some (JObj src) \<and> sf = JArr (map JStr names)
       \<longrightarrow> (\<exists>vs. hit_values sf hit = Inr vs
              \<and> length vs = length SYSTEM_FIELDS + length names
              \<and> (\<forall>i < length names. map_of src (names ! i) = None
                    \<longrightarrow> vs ! (length SYSTEM_FIELDS + i) = JStr '''')))"
proof -
  have width: "length vs = length SYSTEM_FIELDS + n \<and> length vs = length header"
    if "hit_values sf hit = Inr vs" "header_fields sf = Inr header" "py_len sf = Inr n"
    for vs header n
    using that hit_values_length[of sf hit vs n] header_fields_length[of sf header n] by simp
  have missing: "\<exists>vs. hit_values sf hit = Inr vs
              \<and> length vs = length SYSTEM_FIELDS + length names
              \<and> (\<forall>i < length names. map_of src (names ! i) = None
                    \<longrightarrow> vs ! (length SYSTEM_FIELDS + i) = JStr '''')"
    if "hit = JObj h" "map_of h ''_source'' = Some (JObj src)" "sf = JArr (map JStr names)"
    for h src names
  proof -
    have v: "hit_values sf hit = Inr (map (field_of h) SYSTEM_FIELDS @ map (field_of src) names)"
      using that hit_values_object by simp
    have "\<forall>i < length names. map_of src (names ! i) = None
          \<longrightarrow> (map (field_of h) SYSTEM_FIELDS @ map (field_of src) names) ! (length SYSTEM_FIELDS + i) = JStr ''''"
      by (simp add: nth_append field_of_def)
    with v show ?thesis by simp
  qed
  from width missing show ?thesis by blast
qed



section \<open>The pagination loop\<close>

lemma scroll_loop_stop:
  "loop_test total_hits hits = Inr False \<Longrightarrow>
   scroll_loop csv_writer sf scrolls total_hits k sb results hits rows0
     = Some \<lparr>rows = rows0, iterations = k, outcome = Inr total_hits\<rparr>"
  by (subst scroll_loop.simps) simp

lemma scroll_loop_step:
  "loop_test total_hits hits = Inr True \<Longrightarrow>
   loop_body csv_writer sf (scrolls k) sb results hits rows0 = (rows1, Inr (sb', results', hits')) \<Longrightarrow>
   scroll_loop csv_writer sf scrolls total_hits k sb results hits rows0
     = scroll_loop csv_writer sf scrolls total_hits (Suc k) sb' results' hits' rows1"
  by (subst scroll_loop.simps) simp

lemma scroll_loop_raise:
  "loop_test total_hits hits = Inr True \<Longrightarrow>
   loop_body csv_writer sf (scrolls k) sb results hits rows0 = (rows1, Inl e) \<Longrightarrow>
   scroll_loop csv_writer sf scrolls total_hits k sb results hits rows0
     = Some \<lparr>rows = rows1, iterations = k, outcome = Inl e\<rparr>"
  by (subst scroll_loop.simps) simp

lemma loop_test_zero: "py_gt_zero total_hits = Inr False \<Longrightarrow> loop_test total_hits hits = Inr False"
  by (simp add: loop_test_def)

lemma loop_test_len:
  "py_gt_zero total_hits = Inr True \<Longrightarrow> py_len hits = Inr n \<Longrightarrow>
     loop_test total_hits hits = Inr (0 < n)"
  by (simp add: loop_test_def)

lemma py_iter_length: "py_iter v = Inr xs \<Longrightarrow> py_len v = Inr (length xs)"
  by (cases v) (auto simp: py_len_def py_iter_def)

text \<open>A batch whose hits all give a row that the writer takes is written whole, in the
  order of the hits.\<close>

lemma write_batch_rows:
  "map (hit_values sf) hs = map Inr rws \<Longrightarrow> list_all (\<lambda>row. csv_writer row = Inr ()) rws \<Longrightarrow>
     write_batch csv_writer sf hs rows0 = (rows0 @ rws, Inr ())"
proof (induction hs arbitrary: rws rows0)
  case Nil
  then show ?case by simp
next
  case (Cons hit hs)
  from Cons.prems(1) obtain r rws' where rws: "rws = r # rws'" by (cases rws) simp_all
  with Cons.prems have h: "hit_values sf hit = Inr r" and w: "csv_writer r = Inr ()"
    and rest: "map (hit_values sf) hs = map Inr rws'"
      "list_all (\<lambda>row. csv_writer row = Inr ()) rws'"
    by simp_all
  from Cons.IH[OF rest, of "rows0 @ [r]"] h w rws show ?case by simp
qed

text \<open>One pass over a batch of that kind, answered by a response that passes the check and
  carries the next page.\<close>

lemma loop_body_good:
  assumes "py_iter hits = Inr batch"
    and "map (hit_values sf) batch = map Inr rws"
    and "list_all (\<lambda>row. csv_writer row = Inr ()) rws"
    and "py_getitem results ''_scroll_id'' = Inr scroll_id"
    and "check_search_response r = Inr c"
    and "response_json r = Inr results'"
    and "hits_of results' = Inr hits'"
  shows "loop_body csv_writer sf r (JObj sb) results hits rows0
       = (rows0 @ rws, Inr (JObj (AList.update ''scroll_id'' scroll_id sb), results', hits'))"
  using assms
  by (simp add: loop_body_def write_batch_rows get_message_metadata_scroll_def py_setitem_def)

lemma scroll_loop_run:
  assumes pos: "py_gt_zero total_hits = Inr True"
    and good: "\<forall>k \<le> n. hits_of (pages k) = Inr (hits k) \<and> py_iter (hits k) = Inr (batch k)
               \<and> batch k \<noteq> []
               \<and> map (hit_values sf) (batch k) = map Inr (written k)
               \<and> list_all (\<lambda>row. csv_writer row = Inr ()) (written k)
               \<and> py_getitem (pages k) ''_scroll_id'' = Inr (scroll_id k)
               \<and> (\<exists>c. check_search_response (scrolls k) = Inr c)
               \<and> response_json (scrolls k) = Inr (pages (Suc k))"
    and fin: "hits_of (pages (Suc n)) = Inr final" "py_len final = Inr 0"
  shows "i \<le> n \<Longrightarrow>
     scroll_loop csv_writer sf scrolls total_hits i (JObj sb) (pages i) (hits i) rows0
       = Some \<lparr>rows = rows0 @ concat (map written [i..<Suc n]), iterations = Suc n,
               outcome = Inr total_hits\<rparr>"
proof (induction "n - i" arbitrary: i sb rows0)
  case 0
  then have i: "i = n" by simp
  from good have g: "py_iter (hits n) = Inr (batch n)" "batch n \<noteq> []"
    "map (hit_values sf) (batch n) = map Inr (written n)"
    "list_all (\<lambda>row. csv_writer row = Inr ()) (written n)"
    "py_getitem (pages n) ''_scroll_id'' = Inr (scroll_id n)"
    "response_json (scrolls n) = Inr (pages (Suc n))"
    and "\<exists>c. check_search_response (scrolls n) = Inr c" by simp_all
  then obtain c where c: "check_search_response (scrolls n) = Inr c" by blast
  have test: "loop_test total_hits (hits n) = Inr True"
    using loop_test_len[OF pos py_iter_length[OF g(1)]] g(2) by simp
  note body = loop_body_good[OF g(1,3,4,5) c g(6) fin(1), of sb rows0]
  have stop: "loop_test total_hits final = Inr False"
    using loop_test_len[OF pos fin(2)] by simp
  show ?case
    unfolding i scroll_loop_step[where scrolls=scrolls and k=n, OF test body]
    by (simp add: scroll_loop_stop[OF stop])
next
  case (Suc d)
  then have lt: "i < n" and d: "d = n - Suc i" and le: "Suc i \<le> n" by simp_all
  from good lt have g: "py_iter (hits i) = Inr (batch i)" "batch i \<noteq> []"
    "map (hit_values sf) (batch i) = map Inr (written i)"
    "list_all (\<lambda>row. csv_writer row = Inr ()) (written i)"
    "py_getitem (pages i) ''_scroll_id'' = Inr (scroll_id i)"
    "response_json (scrolls i) = Inr (pages (Suc i))"
    and "\<exists>c. check_search_response (scrolls i) = Inr c" by simp_all
  then obtain c where c: "check_search_response (scrolls i) = Inr c" by blast
  from good le have nxt: "hits_of (pages (Suc i)) = Inr (hits (Suc i))" by simp
  have test: "loop_test total_hits (hits i) = Inr True"
    using loop_test_len[OF pos py_iter_length[OF g(1)]] g(2) by simp
  note body = loop_body_good[OF g(1,3,4,5) c g(6) nxt, of sb rows0]
  have split: "[i..<Suc n] = i # [Suc i..<Suc n]" using lt by (simp add: upt_conv_Cons)
  show ?case
    unfolding scroll_loop_step[where scrolls=scrolls and k=i, OF test body]
      Suc.hyps(1)[OF d le] split
    by simp
qed

text \<open>
  C8.  The loop of \<open>process_slice\<close> makes no pass when the reported total is not positive
  or the first batch is empty.  Otherwise, when the first page and the first \<open>n\<close>
  continuation responses carry non-empty batches (of hits that give rows the writer takes,
  with a scroll id, the responses passing the check) and the next continuation response
  carries an empty batch, \<open>process_slice\<close> returns after exactly \<open>n + 1\<close> passes, having
  written the rows of all those batches in order, with the reported total as its result:
  whatever that total is, and however many rows were written.
\<close>

theorem pagination_stops_on_empty_batch:
  "(\<forall>results total_hits hits.
       get_message_metadata_search slice_id query_body search = Inr results
       \<and> total_hits_of es_version results = Inr total_hits
       \<and> hits_of results = Inr hits
       \<and> (py_gt_zero total_hits = Inr False \<or> py_gt_zero total_hits = Inr True \<and> py_len hits = Inr 0)
     \<longrightarrow> process_slice es_version slice_id csv_writer query_body scroll_body sf search scrolls
           = Some \<lparr>rows = [], iterations = 0, outcome = Inr total_hits\<rparr>)
   \<and> (\<forall>pages hits batch written scroll_id total_hits sb final n.
       get_message_metadata_search slice_id query_body search = Inr (pages 0)
       \<and> total_hits_of es_version (pages 0) = Inr total_hits
       \<and> py_gt_zero total_hits = Inr True
       \<and> scroll_body = JObj sb
       \<and> (\<forall>k \<le> n. hits_of (pages k) = Inr (hits k) \<and> py_iter (hits k) = Inr (batch k)
               \<and> batch k \<noteq> []
               \<and> map (hit_values sf) (batch k) = map Inr (written k)
               \<and> list_all (\<lambda>row. csv_writer row = Inr ()) (written k)
               \<and> py_getitem (pages k) ''_scroll_id'' = Inr (scroll_id k)
               \<and> (\<exists>c. check_search_response (scrolls k) = Inr c)
               \<and> response_json (scrolls k) = Inr (pages (Suc k)))
       \<and> hits_of (pages (Suc n)) = Inr final \<and> py_len final = Inr 0
     \<longrightarrow> process_slice es_version slice_id csv_writer query_body scroll_body sf search scrolls
           = Some \<lparr>rows = concat (map written [0..<Suc n]), iterations = Suc n,
                   outcome = Inr total_hits\<rparr>)"
proof -
  have first: "process_slice es_version slice_id csv_writer query_body scroll_body sf search scrolls
           = Some \<lparr>rows = [], iterations = 0, outcome = Inr total_hits\<rparr>"
    if "get_message_metadata_search slice_id query_body search = Inr results"
      "total_hits_of es_version results = Inr total_hits" "hits_of results = Inr hits"
      "py_gt_zero total_hits = Inr False \<or> py_gt_zero total_hits = Inr True \<and> py_len hits = Inr 0"
    for results total_hits hits
  proof -
    from that(4) have "loop_test total_hits hits = Inr False"
      using loop_test_zero loop_test_len[of total_hits hits 0] by auto
    then show ?thesis using that(1-3) by (simp add: process_slice_def scroll_loop_stop)
  qed
  have run: "process_slice es_version slice_id csv_writer query_body scroll_body sf search scrolls
           = Some \<lparr>rows = concat (map written [0..<Suc n]), iterations = Suc n,
                   outcome = Inr total_hits\<rparr>"
    if s: "get_message_metadata_search slice_id query_body search = Inr (pages 0)"
      and t: "total_hits_of es_version (pages 0) = Inr total_hits"
      and pos: "py_gt_zero total_hits = Inr True"
      and sb: "scroll_body = JObj sb"
      and good: "\<forall>k \<le> n. hits_of (pages k) = Inr (hits k) \<and> py_iter (hits k) = Inr (batch k)
               \<and> batch k \<noteq> []
               \<and> map (hit_values sf) (batch k) = map Inr (written k)
               \<and> list_all (\<lambda>row. csv_writer row = Inr ()) (written k)
               \<and> py_getitem (pages k) ''_scroll_id'' = Inr (scroll_id k)
               \<and> (\<exists>c. check_search_response (scrolls k) = Inr c)
               \<and> response_json (scrolls k) = Inr (pages (Suc k))"
      and fin: "hits_of (pages (Suc n)) = Inr final" "py_len final = Inr 0"
    for pages hits batch written scroll_id total_hits sb final n
  proof -
    from good have h0: "hits_of (pages 0) = Inr (hits 0)" by simp
    from scroll_loop_run[OF pos good fin, of 0 sb "[]"]
    show ?thesis using s t h0 sb by (simp add: process_slice_def)
  qed
  from first run show ?thesis by blast
qed

section \<open>Failing responses\<close>

lemma bad_status_check:
  assumes "400 \<le> status_code r" "status_code r < 600" "status_code r \<noteq> 404"
  shows "isl (check_search_response r)"
  using assms by (cases "response_json r") (simp_all add: check_search_response_def raise_for_status_def)

lemma isl_bind_err: "isl m \<Longrightarrow> isl (bind_err m f)"
  by (cases m) simp_all

lemma isl_bind_err2: "(\<And>x. isl (f x)) \<Longrightarrow> isl (bind_err m f)"
  by (cases m) simp_all

lemma search_bad_status:
  assumes "400 \<le> status_code r" "status_code r < 600" "status_code r \<noteq> 404"
  shows "isl (get_message_metadata_search slice_id query_body r)"
  unfolding get_message_metadata_search_def
  by (intro isl_bind_err2 isl_bind_err bad_status_check assms)

lemma scroll_bad_status:
  assumes "400 \<le> status_code r" "status_code r < 600" "status_code r \<noteq> 404"
  shows "isl (get_message_metadata_scroll scroll_id scroll_body r)"
  unfolding get_message_metadata_scroll_def
  by (intro isl_bind_err2 isl_bind_err bad_status_check assms)

lemma loop_body_bad_status:
  assumes "400 \<le> status_code r" "status_code r < 600" "status_code r \<noteq> 404"
  shows "\<exists>rows1 e. loop_body csv_writer sf r sb results hits rows0 = (rows1, Inl e)"
proof -
  have "isl (bind_err (py_getitem results ''_scroll_id'') (\<lambda>scroll_id.
               bind_err (get_message_metadata_scroll scroll_id sb r) (\<lambda>(scroll_body', results').
               bind_err (hits_of results') (\<lambda>hits'.
               Inr (scroll_body', results', hits')))))"
    by (intro isl_bind_err2 isl_bind_err scroll_bad_status assms)
  then obtain e where "bind_err (py_getitem results ''_scroll_id'') (\<lambda>scroll_id.
               bind_err (get_message_metadata_scroll scroll_id sb r) (\<lambda>(scroll_body', results').
               bind_err (hits_of results') (\<lambda>hits'.
               Inr (scroll_body', results', hits')))) = Inl e"
    by (auto simp: isl_def)
  then show ?thesis
    by (auto simp: loop_body_def split: sum.splits prod.splits)
qed

lemma collect_results_raises:
  "Inl e \<in> set rs \<Longrightarrow> isl (collect_results float_add t rs)"
proof (induction rs arbitrary: t)
  case (Cons r rs)
  show ?case
  proof (cases r)
    case (Inr v)
    with Cons.prems have "Inl e \<in> set rs" by auto
    then have "isl (collect_results float_add t' rs)" for t' by (rule Cons.IH)
    then show ?thesis using Inr by (cases "py_add float_add t v") simp_all
  qed simp
qed simp



text \<open>
  A response with a status from 400 to 599 other than 404 raises: as the answer to the
  initial search it ends \<open>process_slice\<close> with an error and no row; as the answer to the
  scroll request of any pass it ends the loop with an error in that pass; and a slice that
  ended with an error makes the coordinator end with an error, once every slice has ended.
\<close>

lemma http_error_fails_export:
  assumes bad: "400 \<le> status_code r" "status_code r < 600" "status_code r \<noteq> 404"
  shows "(\<exists>e. process_slice es_version slice_id csv_writer query_body scroll_body sf r scrolls
             = Some \<lparr>rows = [], iterations = 0, outcome = Inl e\<rparr>)
       \<and> (\<forall>total_hits k sb results hits rows0.
             scrolls k = r \<and> loop_test total_hits hits = Inr True
             \<longrightarrow> (\<exists>rows1 e. scroll_loop csv_writer sf scrolls total_hits k sb results hits rows0
                     = Some \<lparr>rows = rows1, iterations = k, outcome = Inl e\<rparr>))
       \<and> (\<forall>searches scrollss completion i run e.
             i \<in> set completion
             \<and> (\<forall>j \<in> set completion.
                   process_slice es_version (int j) csv_writer query_body scroll_body sf (searches j) (scrollss j) \<noteq> None)
             \<and> process_slice es_version (int i) csv_writer query_body scroll_body sf (searches i) (scrollss i) = Some run
             \<and> outcome run = Inl e
             \<longrightarrow> (\<exists>e'. save_message_metadata_to_csv csv_writer float_add es_version query_body scroll_body sf
                          searches scrollss completion = Some (Inl e')))"
proof -
  have initial: "\<exists>e. process_slice es_version slice_id csv_writer query_body scroll_body sf r scrolls
             = Some \<lparr>rows = [], iterations = 0, outcome = Inl e\<rparr>"
    using search_bad_status[OF bad, of slice_id query_body]
    by (auto simp: process_slice_def isl_def)
  have continuation: "\<exists>rows1 e. scroll_loop csv_writer sf scrolls total_hits k sb results hits rows0
                     = Some \<lparr>rows = rows1, iterations = k, outcome = Inl e\<rparr>"
    if "scrolls k = r" "loop_test total_hits hits = Inr True"
    for total_hits k sb results hits rows0
  proof -
    from loop_body_bad_status[OF bad, of csv_writer sf sb results hits rows0] that(1)
    obtain rows1 e where "loop_body csv_writer sf (scrolls k) sb results hits rows0 = (rows1, Inl e)"
      by auto
    from scroll_loop_raise[where scrolls=scrolls and k=k, OF that(2) this] show ?thesis by blast
  qed
  have coordinator: "\<exists>e'. save_message_metadata_to_csv csv_writer float_add es_version query_body scroll_body sf
                          searches scrollss completion = Some (Inl e')"
    if i: "i \<in> set completion"
      and all: "\<forall>j \<in> set completion.
                   process_slice es_version (int j) csv_writer query_body scroll_body sf (searches j) (scrollss j) \<noteq> None"
      and run: "process_slice es_version (int i) csv_writer query_body scroll_body sf (searches i) (scrollss i) = Some run"
      and e: "outcome run = Inl e"
    for searches scrollss completion i run e
  proof (cases "bind_err (header_fields sf) csv_writer")
    case (Inl e0)
    then show ?thesis by (simp add: save_message_metadata_to_csv_def)
  next
    case (Inr u)
    let ?runs = "map (\<lambda>id. process_slice es_version (int id) csv_writer query_body scroll_body sf
                              (searches id) (scrollss id)) completion"
    from all have none: "\<not> List.member ?runs None"
      by (metis (mono_tags, lifting) List.member_iff imageE list.set_map)
    from i run e have "Inl e \<in> set (map (\<lambda>run. outcome (the run)) ?runs)"
      by (force simp: image_iff)
    then have "isl (collect_results float_add (JInt 0) (map (\<lambda>run. outcome (the run)) ?runs))"
      by (rule collect_results_raises)
    then show ?thesis using Inr none
      by (auto simp: save_message_metadata_to_csv_def Let_def isl_def)
  qed
  from initial continuation coordinator show ?thesis by blast
qed



section \<open>Sample runs\<close>

text \<open>Runs of one slice on concrete answers, evaluated.\<close>

lemmas evals = process_slice_def get_message_metadata_search_def set_slice_id_def
  get_message_metadata_scroll_def json_texts py_getitem_def py_setitem_def py_len_def py_iter_def
  py_get_def py_gt_zero_def check_search_response_def response_json_def raise_for_status_def
  total_hits_of_def hits_of_def loop_test_def loop_body_def hit_values_def
  VERSION_ES5_def sample_plan_def sample_fields_def page_def doc_def answer_def always_def
  JSON_SCROLL_BODY_def SYSTEM_FIELDS_def ES_KEEP_ALIVE_def accept_row_def script_def

lemma run_300:
  "process_slice ''7'' (int j) accept_row sample_plan JSON_SCROLL_BODY sample_fields
      (answer 300 (page ''c0'' 0 [])) scrolls
   = Some \<lparr>rows = [], iterations = 0, outcome = Inr (JInt 0)\<rparr>"
  by (simp add: evals scroll_loop.simps)

lemma run_two_pages:
  "process_slice ''7'' (int j) accept_row sample_plan JSON_SCROLL_BODY sample_fields
      (answer 200 (page ''c0'' 5 [doc ''a1'' [(''subject'', JStr ''hello'')]]))
      (always (answer 200 (page ''c1'' 5 [])))
   = Some \<lparr>rows = [[JStr ''a1'', JStr ''hello'', JStr '''']], iterations = 1, outcome = Inr (JInt 5)\<rparr>"
  by (simp add: evals scroll_loop.simps)

lemma run_500_later:
  "process_slice ''7'' (int j) accept_row sample_plan JSON_SCROLL_BODY sample_fields
      (answer 200 (page ''c0'' 5 [doc ''a1'' [(''subject'', JStr ''hello'')]]))
      (always (answer 500 (JObj [(''error'', JStr ''search_phase_execution_exception'')])))
   = Some \<lparr>rows = [[JStr ''a1'', JStr ''hello'', JStr '''']], iterations = 0, outcome = Inl (HTTPError 500)\<rparr>"
  by (simp add: evals scroll_loop.simps)



lemma sample_header:
  "header_fields sample_fields = Inr (map JStr SYSTEM_FIELDS @ [JStr ''subject'', JStr ''sender''])"
  by (simp add: header_fields_def py_iter_def sample_fields_def)

section \<open>A hit without a document\<close>

text \<open>
  C3.  The claim is that every hit gives a row of the header's width, a selected field the
  document lacks giving the empty string and no error.  The two loops that build the row
  read with \<open>get(..., '')\<close>, but the document itself is fetched with \<open>hit['_source']\<close>: at
  a hit that has no \<open>_source\<close>, as the engine sends for an index whose mapping does not
  store it, that lookup raises \<open>KeyError\<close>, no row is written and \<open>process_slice\<close> ends
  with the error.
\<close>

theorem process_slice_hit_without_source_raises:
  "process_slice ''7'' 0 csv_writer sample_plan JSON_SCROLL_BODY sample_fields
     (answer 200 (page ''c0'' 1 [JObj [(''_index'', JStr ''messages''), (''_id'', JStr ''a1'')]]))
     scrolls
   = Some \<lparr>rows = [], iterations = 0, outcome = Inl (KeyError ''_source'')\<rparr>"
  by (simp add: evals scroll_loop.simps)

section \<open>A run of two passes\<close>

theorem pagination_stops_on_empty_batch_witness:
  "process_slice ''7'' 0 accept_row sample_plan JSON_SCROLL_BODY sample_fields
       (answer 200 (page ''c0'' 0 [doc ''a1'' [(''subject'', JStr ''hello'')]]))
       (always (answer 200 (page ''c1'' 0 [])))
     = Some \<lparr>rows = [], iterations = 0, outcome = Inr (JInt 0)\<rparr>
   \<and> process_slice ''7'' 0 accept_row sample_plan JSON_SCROLL_BODY sample_fields
       (answer 200 (page ''c0'' 5 [doc ''a1'' [(''subject'', JStr ''hello'')]]))
       (script [answer 200 (page ''c1'' 5 [doc ''a2'' [(''sender'', JStr ''bob'')]])]
               (answer 200 (page ''c2'' 5 [])))
     = Some \<lparr>rows = [[JStr ''a1'', JStr ''hello'', JStr ''''], [JStr ''a2'', JStr '''', JStr ''bob'']],
             iterations = 2, outcome = Inr (JInt 5)\<rparr>"
proof -
  let ?d1 = "doc ''a1'' [(''subject'', JStr ''hello'')]"
  let ?d2 = "doc ''a2'' [(''sender'', JStr ''bob'')]"
  let ?scrolls = "script [answer 200 (page ''c1'' 5 [?d2])] (answer 200 (page ''c2'' 5 []))"
  let ?pages = "nth [page ''c0'' 5 [?d1], page ''c1'' 5 [?d2], page ''c2'' 5 []]"
  let ?hits = "nth [JArr [?d1], JArr [?d2]]"
  let ?batch = "nth [[?d1], [?d2]]"
  let ?written = "nth [[[JStr ''a1'', JStr ''hello'', JStr '''']], [[JStr ''a2'', JStr '''', JStr ''bob'']]]"
  let ?ids = "nth [JStr ''c0'', JStr ''c1'']"
  have zero: "get_message_metadata_search 0 sample_plan
        (answer 200 (page ''c0'' 0 [?d1])) = Inr (page ''c0'' 0 [?d1])
      \<and> total_hits_of ''7'' (page ''c0'' 0 [?d1]) = Inr (JInt 0)
      \<and> hits_of (page ''c0'' 0 [?d1]) = Inr (JArr [?d1])
      \<and> (py_gt_zero (JInt 0) = Inr False
           \<or> py_gt_zero (JInt 0) = Inr True \<and> py_len (JArr [?d1]) = Inr 0)"
    by (simp add: evals)
  have good: "\<forall>k \<le> 1. hits_of (?pages k) = Inr (?hits k) \<and> py_iter (?hits k) = Inr (?batch k)
               \<and> ?batch k \<noteq> []
               \<and> map (hit_values sample_fields) (?batch k) = map Inr (?written k)
               \<and> list_all (\<lambda>row. accept_row row = Inr ()) (?written k)
               \<and> py_getitem (?pages k) ''_scroll_id'' = Inr (?ids k)
               \<and> (\<exists>c. check_search_response (?scrolls k) = Inr c)
               \<and> response_json (?scrolls k) = Inr (?pages (Suc k))"
  proof (intro allI impI)
    fix k :: nat assume "k \<le> 1"
    then consider "k = 0" | "k = 1" by linarith
    then show "hits_of (?pages k) = Inr (?hits k) \<and> py_iter (?hits k) = Inr (?batch k)
               \<and> ?batch k \<noteq> []
               \<and> map (hit_values sample_fields) (?batch k) = map Inr (?written k)
               \<and> list_all (\<lambda>row. accept_row row = Inr ()) (?written k)
               \<and> py_getitem (?pages k) ''_scroll_id'' = Inr (?ids k)
               \<and> (\<exists>c. check_search_response (?scrolls k) = Inr c)
               \<and> response_json (?scrolls k) = Inr (?pages (Suc k))"
      by cases (simp_all add: evals)
  qed
  have run: "get_message_metadata_search 0 sample_plan
        (answer 200 (page ''c0'' 5 [?d1])) = Inr (?pages 0)
      \<and> total_hits_of ''7'' (?pages 0) = Inr (JInt 5)
      \<and> py_gt_zero (JInt 5) = Inr True
      \<and> JSON_SCROLL_BODY = JObj [(''scroll'', JStr ES_KEEP_ALIVE), (''scroll_id'', JStr '''')]
      \<and> (\<forall>k \<le> 1. hits_of (?pages k) = Inr (?hits k) \<and> py_iter (?hits k) = Inr (?batch k)
               \<and> ?batch k \<noteq> []
               \<and> map (hit_values sample_fields) (?batch k) = map Inr (?written k)
               \<and> list_all (\<lambda>row. accept_row row = Inr ()) (?written k)
               \<and> py_getitem (?pages k) ''_scroll_id'' = Inr (?ids k)
               \<and> (\<exists>c. check_search_response (?scrolls k) = Inr c)
               \<and> response_json (?scrolls k) = Inr (?pages (Suc k)))
      \<and> hits_of (?pages (Suc 1)) = Inr (JArr []) \<and> py_len (JArr []) = Inr 0"
    using good by (simp add: evals)
  note T = pagination_stops_on_empty_batch[where es_version="''7''" and slice_id=0
      and csv_writer=accept_row and query_body=sample_plan and scroll_body=JSON_SCROLL_BODY
      and sf=sample_fields]
  from T[where search="answer 200 (page ''c0'' 0 [?d1])"
        and scrolls="always (answer 200 (page ''c1'' 0 []))", THEN conjunct1, rule_format, OF zero]
    T[where search="answer 200 (page ''c0'' 5 [?d1])" and scrolls="?scrolls",
        THEN conjunct2, rule_format, OF run]
  show ?thesis by (simp add: upt_rec numeral_2_eq_2)
qed

section \<open>A status that is neither 200, 404 nor an error status\<close>

text \<open>
  C7.  The claim is that a response whose status is neither 200 nor 404 raises and fails
  the export.  The last branch of \<open>check_search_response\<close> logs an error and calls
  \<open>raise_for_status\<close>, which raises for the statuses 400 to 599 only; for any other status
  the function returns and both callers go on with the body.  With every slice answered
  by status 300 and a JSON body that reports no hits, the export returns 0.
\<close>

theorem export_survives_status_300:
  "save_message_metadata_to_csv accept_row float_add ''7'' sample_plan JSON_SCROLL_BODY sample_fields
     (always (answer 300 (page ''c0'' 0 [])))
     (always (always (answer 200 (page ''c0'' 0 []))))
     [0..<NUM_SLICES]
   = Some (Inr (JInt 0))"
proof -
  have run: "process_slice ''7'' (int j) accept_row sample_plan JSON_SCROLL_BODY sample_fields
      (always (answer 300 (page ''c0'' 0 [])) j) (always (always (answer 200 (page ''c0'' 0 []))) j)
      = Some \<lparr>rows = [], iterations = 0, outcome = Inr (JInt 0)\<rparr>" for j
    by (simp add: always_def[of "answer 300 (page ''c0'' 0 [])"] run_300)
  show ?thesis
    by (simp add: save_message_metadata_to_csv_def sample_header accept_row_def run Let_def
        NUM_SLICES_def upt_rec py_add_def as_int_def)
qed

section \<open>Deep copies are isolated\<close>

lemma fresh_mono: "fresh lo hi v \<Longrightarrow> lo' \<le> lo \<Longrightarrow> hi \<le> hi' \<Longrightarrow> fresh lo' hi' v"
  by (cases v) (auto simp: fresh_def)

lemma closed_empty: "lo \<le> length h \<Longrightarrow> closed lo lo h"
  by (auto simp: closed_def)

lemma closed_append: "closed lo hi h \<Longrightarrow> closed lo hi (h @ new)"
  by (auto simp: closed_def nth_append)

lemma closed_join:
  assumes "closed lo mid h" "closed mid hi h" "lo \<le> mid" "mid \<le> hi"
  shows "closed lo hi h"
  unfolding closed_def
proof (intro conjI allI impI ballI)
  show "hi \<le> length h" using assms(2) by (simp add: closed_def)
next
  fix a v assume a: "lo \<le> a \<and> a < hi" and v: "v \<in> set (obj_vals (h ! a))"
  show "fresh lo hi v"
  proof (cases "a < mid")
    case True
    with a v assms(1) have "fresh lo mid v" by (auto simp: closed_def)
    then show ?thesis using fresh_mono[of lo mid v lo hi] assms(4) by simp
  next
    case False
    then have "mid \<le> a" by simp
    with a v assms(2) have "fresh mid hi v" unfolding closed_def by blast
    then show ?thesis using fresh_mono[of mid hi v lo hi] assms(3) by simp
  qed
qed

lemma closed_snoc:
  assumes "closed lo (length h) h" "\<forall>v \<in> set (obj_vals ob). fresh lo (length h) v" "lo \<le> length h"
  shows "closed lo (Suc (length h)) (h @ [ob])"
  unfolding closed_def
proof (intro conjI allI impI ballI)
  show "Suc (length h) \<le> length (h @ [ob])" by simp
next
  fix a v assume a: "lo \<le> a \<and> a < Suc (length h)" and v: "v \<in> set (obj_vals ((h @ [ob]) ! a))"
  show "fresh lo (Suc (length h)) v"
  proof (cases "a < length h")
    case True
    with a v assms(1) have "fresh lo (length h) v" by (auto simp: closed_def nth_append)
    then show ?thesis using fresh_mono[of lo "length h" v lo "Suc (length h)"] by simp
  next
    case False
    with a have "a = length h" by simp
    with v assms(2) have "fresh lo (length h) v" by simp
    then show ?thesis using fresh_mono[of lo "length h" v lo "Suc (length h)"] by simp
  qed
qed

lemma deepcopy_region:
  "deepcopy n v h = Some (v', h') \<Longrightarrow>
     (\<exists>new. h' = h @ new) \<and> fresh (length h) (length h') v' \<and> closed (length h) (length h') h'"
  "deepcopy_list n vs h = Some (vs', h') \<Longrightarrow>
     (\<exists>new. h' = h @ new) \<and> (\<forall>x \<in> set vs'. fresh (length h) (length h') x)
       \<and> closed (length h) (length h') h' \<and> length vs' = length vs"
proof (induction n v h and n vs h arbitrary: v' h' and vs' h' rule: deepcopy_deepcopy_list.induct)
  case (1 n a h)
  then obtain m where n: "n = Suc m" by (cases n) simp_all
  from 1(3) n have a: "a < length h" by (simp split: if_splits)
  show ?case
  proof (cases "h ! a")
    case (OList vs)
    have "deepcopy n (VRef a) h = (case deepcopy_list m vs h of None \<Rightarrow> None
             | Some (vs', h') \<Rightarrow> Some (VRef (length h'), h' @ [OList vs']))"
      using n a OList by simp
    with 1(3) obtain ws h1 where r: "deepcopy_list m vs h = Some (ws, h1)"
      and v': "v' = VRef (length h1)" and h': "h' = h1 @ [OList ws]"
      by (cases "deepcopy_list m vs h") auto
    from 1(2)[OF n a OList r] obtain new where ext: "h1 = h @ new"
      and fr: "\<forall>x \<in> set ws. fresh (length h) (length h1) x"
      and cl: "closed (length h) (length h1) h1" by blast
    have le: "length h \<le> length h1" using ext by simp
    have c: "closed (length h) (Suc (length h1)) (h1 @ [OList ws])"
      using cl fr le by (intro closed_snoc) (simp_all add: obj_vals_def)
    have e: "\<exists>new'. h' = h @ new'" unfolding h' ext by simp
    have f: "fresh (length h) (length h') v'" unfolding h' v' using le by (simp add: fresh_def)
    from c have c': "closed (length h) (length h') h'" unfolding h' by simp
    from e f c' show ?thesis by blast
  next
    case (ODict fs)
    have "deepcopy n (VRef a) h = (case deepcopy_list m (map snd fs) h of None \<Rightarrow> None
             | Some (vs', h') \<Rightarrow> Some (VRef (length h'), h' @ [ODict (zip (map fst fs) vs')]))"
      using n a ODict by simp
    with 1(3) obtain ws h1 where r: "deepcopy_list m (map snd fs) h = Some (ws, h1)"
      and v': "v' = VRef (length h1)" and h': "h' = h1 @ [ODict (zip (map fst fs) ws)]"
      by (cases "deepcopy_list m (map snd fs) h") auto
    from 1(1)[OF n a ODict r] obtain new where ext: "h1 = h @ new"
      and fr: "\<forall>x \<in> set ws. fresh (length h) (length h1) x"
      and cl: "closed (length h) (length h1) h1" by blast
    have le: "length h \<le> length h1" using ext by simp
    have "\<forall>v \<in> set (obj_vals (ODict (zip (map fst fs) ws))). fresh (length h) (length h1) v"
      using fr by (auto simp: obj_vals_def dest!: set_zip_rightD)
    then have c: "closed (length h) (Suc (length h1)) (h1 @ [ODict (zip (map fst fs) ws)])"
      using cl le by (intro closed_snoc) simp_all
    have e: "\<exists>new'. h' = h @ new'" unfolding h' ext by simp
    have f: "fresh (length h) (length h') v'" unfolding h' v' using le by (simp add: fresh_def)
    from c have c': "closed (length h) (length h') h'" unfolding h' by simp
    from e f c' show ?thesis by blast
  qed
next
  case (4 n v vs h)
  from 4(3) obtain w h1 where r1: "deepcopy n v h = Some (w, h1)"
    by (cases "deepcopy n v h") auto
  with 4(3) obtain ws where r2: "deepcopy_list n vs h1 = Some (ws, h')" and vs': "vs' = w # ws"
    by (cases "deepcopy_list n vs h1") auto
  from 4(1)[OF r1] obtain new1 where e1: "h1 = h @ new1"
    and f1: "fresh (length h) (length h1) w" and c1: "closed (length h) (length h1) h1" by blast
  from 4(2)[OF r1 refl r2] obtain new2 where e2: "h' = h1 @ new2"
    and f2: "\<forall>x \<in> set ws. fresh (length h1) (length h') x"
    and c2: "closed (length h1) (length h') h'" and l2: "length ws = length vs" by blast
  have le: "length h \<le> length h1" "length h1 \<le> length h'" using e1 e2 by simp_all
  have c1': "closed (length h) (length h1) h'" unfolding e2 using c1 by (rule closed_append)
  have c: "closed (length h) (length h') h'"
    using c1' c2 le by (rule closed_join)
  have f: "\<forall>x \<in> set vs'. fresh (length h) (length h') x"
  proof
    fix x assume "x \<in> set vs'"
    then consider "x = w" | "x \<in> set ws" unfolding vs' by auto
    then show "fresh (length h) (length h') x"
    proof cases
      case 1 then show ?thesis using fresh_mono[OF f1, of "length h" "length h'"] le by simp
    next
      case 2 then have "fresh (length h1) (length h') x" using f2 by blast
      from fresh_mono[OF this, of "length h" "length h'"] le show ?thesis by simp
    qed
  qed
  have e: "\<exists>new. h' = h @ new" unfolding e2 e1 by simp
  have l: "length vs' = length (v # vs)" unfolding vs' using l2 by simp
  from e f c l show ?case by blast
next
  case (3 n h)
  then have "vs' = []" "h' = h" by simp_all
  then show ?case by (simp add: closed_empty)
qed (simp_all add: fresh_def closed_empty)

lemma load_frame:
  "closed lo hi h1 \<Longrightarrow> hi \<le> length h2 \<Longrightarrow> \<forall>a. lo \<le> a \<and> a < hi \<longrightarrow> h2 ! a = h1 ! a \<Longrightarrow>
     fresh lo hi v \<Longrightarrow> load m h2 v = load m h1 v"
  "closed lo hi h1 \<Longrightarrow> hi \<le> length h2 \<Longrightarrow> \<forall>a. lo \<le> a \<and> a < hi \<longrightarrow> h2 ! a = h1 ! a \<Longrightarrow>
     \<forall>x \<in> set vs. fresh lo hi x \<Longrightarrow> load_list m h2 vs = load_list m h1 vs"
proof (induction m h1 v and m h1 vs rule: load_load_list.induct)
  case (6 n h a)
  show ?case
  proof (cases n)
    case 0
    then show ?thesis by simp
  next
    case (Suc k)
    from 6(6) have a: "lo \<le> a" "a < hi" by (simp_all add: fresh_def)
    with 6(3) have a1: "a < length h" by (simp add: closed_def)
    from a 6(4) have a2: "a < length h2" by simp
    from a 6(5) have same: "h2 ! a = h ! a" by blast
    from a 6(3) have kids: "\<forall>x \<in> set (obj_vals (h ! a)). fresh lo hi x"
      unfolding closed_def by blast
    show ?thesis
    proof (cases "h ! a")
      case (OList vs)
      with kids have "\<forall>x \<in> set vs. fresh lo hi x" by (simp add: obj_vals_def)
      from 6(2)[OF Suc a1 OList 6(3,4,5) this]
      show ?thesis using Suc a1 a2 same OList by simp
    next
      case (ODict fs)
      with kids have "\<forall>x \<in> set (map snd fs). fresh lo hi x" by (simp add: obj_vals_def)
      from 6(1)[OF Suc a1 ODict 6(3,4,5) this]
      show ?thesis using Suc a1 a2 same ODict by simp
    qed
  qed
next
  case (8 n h v vs)
  from 8(6) have fv: "fresh lo hi v" and fvs: "\<forall>x \<in> set vs. fresh lo hi x" by simp_all
  note hd = 8(1)[OF 8(3,4,5) fv]
  show ?case
  proof (cases "load n h v")
    case None
    then show ?thesis using hd by simp
  next
    case (Some j)
    from 8(2)[OF Some 8(3,4,5) fvs] show ?thesis using hd Some by simp
  qed
qed simp_all

lemma isolated_le: "isolated lo vs hi h \<Longrightarrow> lo \<le> hi"
  by (induction vs arbitrary: lo) (auto intro: order_trans)

lemma isolated_nth:
  "isolated lo vs hi h \<Longrightarrow> p < length vs \<Longrightarrow>
     \<exists>a b. lo \<le> a \<and> a \<le> b \<and> b \<le> hi \<and> closed a b h \<and> fresh a b (vs ! p)"
proof (induction vs arbitrary: lo p)
  case (Cons v vs)
  from Cons.prems(1) obtain mid where m: "lo \<le> mid" "closed lo mid h" "fresh lo mid v"
      "isolated mid vs hi h" by auto
  show ?case
  proof (cases p)
    case 0
    from isolated_le[OF m(4)] m show ?thesis unfolding 0 by auto
  next
    case (Suc k)
    with Cons.prems(2) have "k < length vs" by simp
    from Cons.IH[OF m(4) this] obtain a b where "mid \<le> a" "a \<le> b" "b \<le> hi" "closed a b h"
       "fresh a b (vs ! k)" by blast
    with m(1) show ?thesis unfolding Suc by (intro exI[of _ a] exI[of _ b]) simp
  qed
qed simp

lemma isolated_two:
  "isolated lo vs hi h \<Longrightarrow> p < r \<Longrightarrow> r < length vs \<Longrightarrow>
     \<exists>a b c d. lo \<le> a \<and> a \<le> b \<and> b \<le> c \<and> c \<le> d
        \<and> closed a b h \<and> fresh a b (vs ! p) \<and> closed c d h \<and> fresh c d (vs ! r)"
proof (induction vs arbitrary: lo p r)
  case (Cons v vs)
  from Cons.prems(1) obtain mid where m: "lo \<le> mid" "closed lo mid h" "fresh lo mid v"
      "isolated mid vs hi h" by auto
  from Cons.prems(2) obtain r' where r: "r = Suc r'" by (cases r) simp_all
  with Cons.prems(3) have r': "r' < length vs" by simp
  show ?case
  proof (cases p)
    case 0
    from isolated_nth[OF m(4) r'] obtain c d where "mid \<le> c" "c \<le> d" "closed c d h"
       "fresh c d (vs ! r')" by blast
    with m show ?thesis unfolding 0 r
      by (intro exI[of _ lo] exI[of _ mid] exI[of _ c] exI[of _ d]) simp
  next
    case (Suc k)
    with Cons.prems(2) r have "k < r'" by simp
    from Cons.IH[OF m(4) this r'] obtain a b c d where "mid \<le> a" "a \<le> b" "b \<le> c" "c \<le> d"
      "closed a b h" "fresh a b (vs ! k)" "closed c d h" "fresh c d (vs ! r')" by blast
    with m(1) show ?thesis unfolding Suc r
      by (intro exI[of _ a] exI[of _ b] exI[of _ c] exI[of _ d]) simp
  qed
qed simp

lemma isolated_apart:
  assumes "isolated lo vs hi h" "p < length vs" "r < length vs" "p \<noteq> r"
  shows "\<exists>a b c d. lo \<le> a \<and> lo \<le> c \<and> (b \<le> c \<or> d \<le> a)
        \<and> closed a b h \<and> fresh a b (vs ! p) \<and> closed c d h \<and> fresh c d (vs ! r)"
proof (cases "p < r")
  case True
  from isolated_two[OF assms(1) True assms(3)] obtain a b c d where
    "lo \<le> a" "a \<le> b" "b \<le> c" "c \<le> d" "closed a b h" "fresh a b (vs ! p)"
    "closed c d h" "fresh c d (vs ! r)" by blast
  then show ?thesis by (intro exI[of _ a] exI[of _ b] exI[of _ c] exI[of _ d]) simp
next
  case False
  with assms(4) have "r < p" by simp
  from isolated_two[OF assms(1) this assms(2)] obtain a b c d where
    "lo \<le> a" "a \<le> b" "b \<le> c" "c \<le> d" "closed a b h" "fresh a b (vs ! r)"
    "closed c d h" "fresh c d (vs ! p)" by blast
  then show ?thesis by (intro exI[of _ c] exI[of _ d] exI[of _ a] exI[of _ b]) simp
qed

lemma handed_length: "length (handed cs) = 2 * length cs"
  by (induction cs) simp_all

lemma handed_nth:
  "j < length cs \<Longrightarrow> handed cs ! (2 * j) = fst (cs ! j) \<and> handed cs ! Suc (2 * j) = snd (cs ! j)"
proof (induction cs arbitrary: j)
  case (Cons c cs)
  show ?case
  proof (cases j)
    case 0
    then show ?thesis by simp
  next
    case (Suc k)
    with Cons.prems have "k < length cs" by simp
    from Cons.IH[OF this] show ?thesis unfolding Suc by simp
  qed
qed simp

lemma submit_all_isolated:
  "submit_all n qb sb ids h = Some (cs, h') \<Longrightarrow>
     (\<exists>new. h' = h @ new) \<and> length cs = length ids
       \<and> isolated (length h) (handed cs) (length h') h'"
proof (induction ids arbitrary: h cs h')
  case Nil
  then show ?case by simp
next
  case (Cons i ids)
  from Cons.prems obtain q h1 where r1: "deepcopy n qb h = Some (q, h1)"
    by (cases "deepcopy n qb h") auto
  with Cons.prems obtain s h2 where r2: "deepcopy n sb h1 = Some (s, h2)"
    by (cases "deepcopy n sb h1") auto
  with r1 Cons.prems obtain cs' where r3: "submit_all n qb sb ids h2 = Some (cs', h')"
    and cs: "cs = (q, s) # cs'"
    by (cases "submit_all n qb sb ids h2") auto
  from deepcopy_region(1)[OF r1] obtain new1 where e1: "h1 = h @ new1"
    and f1: "fresh (length h) (length h1) q" and c1: "closed (length h) (length h1) h1" by blast
  from deepcopy_region(1)[OF r2] obtain new2 where e2: "h2 = h1 @ new2"
    and f2: "fresh (length h1) (length h2) s" and c2: "closed (length h1) (length h2) h2" by blast
  from Cons.IH[OF r3] obtain new3 where e3: "h' = h2 @ new3"
    and l3: "length cs' = length ids"
    and i3: "isolated (length h2) (handed cs') (length h') h'" by blast
  have le: "length h \<le> length h1" "length h1 \<le> length h2" using e1 e2 by simp_all
  have c1': "closed (length h) (length h1) h'" unfolding e3 e2 using c1 by (simp add: closed_append)
  have c2': "closed (length h1) (length h2) h'" unfolding e3 using c2 by (rule closed_append)
  have i1: "isolated (length h1) (s # handed cs') (length h') h'"
    by (subst isolated.simps(2)) (use le c2' f2 i3 in blast)
  have "isolated (length h) (q # s # handed cs') (length h') h'"
    by (subst isolated.simps(2)) (use le c1' f1 i1 in blast)
  then have iso: "isolated (length h) (handed cs) (length h') h'"
    unfolding cs by simp
  have e: "\<exists>new. h' = h @ new" unfolding e3 e2 e1 by simp
  from e iso l3 cs show ?case by simp
qed

lemma assign_slice_id_frame:
  assumes run: "assign_slice_id sid q h = Inr h'"
    and fq: "fresh a b q" and cl: "closed a b h"
  shows "\<exists>s ob. a \<le> s \<and> s < b \<and> h' = h[s := ob]"
proof -
  from run obtain sl where g: "ref_getitem h q ''slice'' = Inr sl"
    and st: "ref_setitem h sl ''id'' (VInt sid) = Inr h'"
    unfolding assign_slice_id_def by (auto dest!: bind_err_Inr)
  from g obtain x fs where q: "q = VRef x" and x: "x < length h" and ob: "h ! x = ODict fs"
    and sl: "map_of fs ''slice'' = Some sl"
    by (auto simp: ref_getitem_def split: val.splits if_splits obj.splits option.splits)
  from fq q have xr: "a \<le> x" "x < b" by (simp_all add: fresh_def)
  from sl have "sl \<in> set (obj_vals (h ! x))"
    unfolding ob obj_vals_def by (auto dest!: map_of_SomeD intro: rev_image_eqI)
  with cl xr have fsl: "fresh a b sl" unfolding closed_def by blast
  from st obtain s fs' where s: "sl = VRef s" and h': "h' = h[s := ODict (AList.update ''id'' (VInt sid) fs')]"
    by (auto simp: ref_setitem_def split: val.splits if_splits obj.splits)
  from fsl s have "a \<le> s" "s < b" by (simp_all add: fresh_def)
  with h' show ?thesis by blast
qed

lemma assign_slice_id_reads:
  assumes run: "assign_slice_id sid q h = Inr h'"
  shows "bind_err (ref_getitem h' q ''slice'') (\<lambda>sl. ref_getitem h' sl ''id'') = Inr (VInt sid)"
proof -
  from run obtain sl where g: "ref_getitem h q ''slice'' = Inr sl"
    and st: "ref_setitem h sl ''id'' (VInt sid) = Inr h'"
    unfolding assign_slice_id_def by (auto dest!: bind_err_Inr)
  from g obtain x fs where q: "q = VRef x" and x: "x < length h" and ob: "h ! x = ODict fs"
    and sl: "map_of fs ''slice'' = Some sl"
    by (auto simp: ref_getitem_def split: val.splits if_splits obj.splits option.splits)
  from st obtain s fs' where s: "sl = VRef s" and sh: "s < length h" and os: "h ! s = ODict fs'"
    and h': "h' = h[s := ODict (AList.update ''id'' (VInt sid) fs')]"
    by (auto simp: ref_setitem_def split: val.splits if_splits obj.splits)
  have g': "ref_getitem h' q ''slice'' = Inr (VRef s)"
  proof (cases "x = s")
    case True
    with ob os have "fs' = fs" by simp
    with True sl s x show ?thesis by (simp add: ref_getitem_def q h' update_conv')
  next
    case False
    with sl s x ob show ?thesis by (simp add: ref_getitem_def q h')
  qed
  have "ref_getitem h' (VRef s) ''id'' = Inr (VInt sid)"
    using sh by (simp add: ref_getitem_def h' update_conv')
  with g' show ?thesis by simp
qed

lemma assign_scroll_id_frame:
  assumes run: "assign_scroll_id token v h = Inr h'" and fv: "fresh a b v"
  shows "\<exists>s ob. a \<le> s \<and> s < b \<and> h' = h[s := ob]"
proof -
  from run obtain s fs where s: "v = VRef s"
    and h': "h' = h[s := ODict (AList.update ''scroll_id'' token fs)]"
    by (auto simp: assign_scroll_id_def ref_setitem_def split: val.splits if_splits obj.splits)
  from fv s have "a \<le> s" "s < b" by (simp_all add: fresh_def)
  with h' show ?thesis by blast
qed

lemma assign_scroll_id_reads:
  assumes run: "assign_scroll_id token v h = Inr h'"
  shows "ref_getitem h' v ''scroll_id'' = Inr token"
proof -
  from run obtain s fs where s: "v = VRef s" and sh: "s < length h"
    and h': "h' = h[s := ODict (AList.update ''scroll_id'' token fs)]"
    by (auto simp: assign_scroll_id_def ref_setitem_def split: val.splits if_splits obj.splits)
  then show ?thesis by (simp add: ref_getitem_def update_conv')
qed

text \<open>An assignment that changes one object inside the range of the reference it is made
  through leaves every older object and every other handed reference as they were.\<close>

lemma write_frame:
  assumes iso: "isolated (length h) vs hi h'" and ext: "h' = h @ new"
    and p: "p < length vs"
    and lands: "\<And>a b. closed a b h' \<Longrightarrow> fresh a b (vs ! p) \<Longrightarrow>
                  \<exists>s ob. a \<le> s \<and> s < b \<and> h'' = h'[s := ob]"
  shows "(\<forall>a<length h. h'' ! a = h ! a)
       \<and> (\<forall>r<length vs. r \<noteq> p \<longrightarrow> (\<forall>m. load m h'' (vs ! r) = load m h' (vs ! r)))"
proof -
  have old: "h'' ! a = h ! a" if "a < length h" for a
  proof -
    from isolated_nth[OF iso p] obtain lo b where r: "length h \<le> lo" "closed lo b h'"
      "fresh lo b (vs ! p)" by blast
    from lands[OF r(2,3)] obtain s ob where "lo \<le> s" "h'' = h'[s := ob]" by blast
    with r(1) that show ?thesis by (simp add: ext nth_append)
  qed
  have others: "load m h'' (vs ! r) = load m h' (vs ! r)"
    if r: "r < length vs" "r \<noteq> p" for r m
  proof -
    from isolated_apart[OF iso p r(1)] r(2) obtain a b c d where sep: "b \<le> c \<or> d \<le> a"
      and rp: "closed a b h'" "fresh a b (vs ! p)"
      and rr: "closed c d h'" "fresh c d (vs ! r)" by blast
    from lands[OF rp] obtain s ob where s: "a \<le> s" "s < b" and h'': "h'' = h'[s := ob]" by blast
    from rr(1) have d: "d \<le> length h''" by (simp add: closed_def h'')
    from sep s have agree: "\<forall>x. c \<le> x \<and> x < d \<longrightarrow> h'' ! x = h' ! x"
      by (auto simp: h'')
    from load_frame(1)[OF rr(1) d agree rr(2)] show ?thesis .
  qed
  from old others show ?thesis by blast
qed

lemma template_eval:
  "template = (VRef 3, VRef 0,
      [ODict [(''scroll'', VStr ''1m''), (''scroll_id'', VStr '''')],
       ODict [(''id'', VInt (- 1)), (''max'', VInt 10)],
       OList [VStr ''_doc''],
       ODict [(''slice'', VRef 1), (''size'', VInt 10000), (''sort'', VRef 2)]])"
  by (simp add: template_def JSON_SCROLL_BODY_def json_texts ES_KEEP_ALIVE_def NUM_SLICES_def BATCH_SIZE_def)

lemma load_agree:
  "load n h v = Some j \<Longrightarrow> length h \<le> length h2 \<Longrightarrow> \<forall>a<length h. h2 ! a = h ! a \<Longrightarrow>
     load n h2 v = Some j"
  "load_list n h vs = Some js \<Longrightarrow> length h \<le> length h2 \<Longrightarrow> \<forall>a<length h. h2 ! a = h ! a \<Longrightarrow>
     load_list n h2 vs = Some js"
proof (induction n h v and n h vs arbitrary: j and js rule: load_load_list.induct)
  case (6 n h a)
  from 6(3) obtain m where n: "n = Suc m" by (cases n) simp_all
  from 6(3) n have a: "a < length h" by (simp split: if_splits)
  with 6(4,5) have a2: "a < length h2" and same: "h2 ! a = h ! a" by simp_all
  show ?case
  proof (cases "h ! a")
    case (OList vs)
    with 6(3) n a obtain js where l: "load_list m h vs = Some js" and j: "j = JArr js"
      by (cases "load_list m h vs") auto
    from 6(2)[OF n a OList l 6(4,5)] show ?thesis using n a2 same OList j by simp
  next
    case (ODict fs)
    with 6(3) n a obtain js where l: "load_list m h (map snd fs) = Some js"
      and j: "j = JObj (zip (map fst fs) js)"
      by (cases "load_list m h (map snd fs)") auto
    from 6(1)[OF n a ODict l 6(4,5)] show ?thesis using n a2 same ODict j by simp
  qed
next
  case (8 n h v vs)
  from 8(3) obtain j0 where l1: "load n h v = Some j0" by (cases "load n h v") auto
  with 8(3) obtain js0 where l2: "load_list n h vs = Some js0" and js: "js = j0 # js0"
    by (cases "load_list n h vs") auto
  from 8(1)[OF l1 8(4,5)] 8(2)[OF l1 l2 8(4,5)] js show ?case by simp
qed simp_all

lemma load_append:
  "load n h v = Some j \<Longrightarrow> load n (h @ new) v = Some j"
  "load_list n h vs = Some js \<Longrightarrow> load_list n (h @ new) vs = Some js"
  using load_agree(1)[of n h v j "h @ new"] load_agree(2)[of n h vs js "h @ new"]
  by (simp_all add: nth_append)

lemma load_list_length: "load_list n h vs = Some js \<Longrightarrow> length js = length vs"
  by (induction vs arbitrary: js) (auto split: option.splits)

lemma deepcopy_load:
  "(\<forall>h v j. load n h v = Some j \<longrightarrow>
       (\<exists>v' h'. deepcopy n v h = Some (v', h') \<and> load n h' v' = Some j))
   \<and> (\<forall>h vs js. load_list n h vs = Some js \<longrightarrow>
       (\<exists>vs' h'. deepcopy_list n vs h = Some (vs', h') \<and> load_list n h' vs' = Some js))"
proof (induction n)
  case 0
  have one: "\<exists>v' h'. deepcopy 0 v h = Some (v', h') \<and> load 0 h' v' = Some j"
    if "load 0 h v = Some j" for h v j
    using that by (cases v) simp_all
  have many: "\<exists>vs' h'. deepcopy_list 0 vs h = Some (vs', h') \<and> load_list 0 h' vs' = Some js"
    if "load_list 0 h vs = Some js" for h vs js
    using that
  proof (induction vs arbitrary: h js)
    case (Cons v vs)
    from Cons.prems obtain j0 where l1: "load 0 h v = Some j0" by (cases "load 0 h v") auto
    with Cons.prems obtain js0 where l2: "load_list 0 h vs = Some js0" and js: "js = j0 # js0"
      by (cases "load_list 0 h vs") auto
    from one[OF l1] obtain v' h1 where d1: "deepcopy 0 v h = Some (v', h1)"
      and r1: "load 0 h1 v' = Some j0" by blast
    from deepcopy_region(1)[OF d1] obtain new1 where e1: "h1 = h @ new1" by blast
    from load_append(2)[OF l2] have "load_list 0 h1 vs = Some js0" unfolding e1 .
    from Cons.IH[OF this] obtain vs' h2 where d2: "deepcopy_list 0 vs h1 = Some (vs', h2)"
      and r2: "load_list 0 h2 vs' = Some js0" by blast
    from deepcopy_region(2)[OF d2] obtain new2 where e2: "h2 = h1 @ new2" by blast
    from load_append(1)[OF r1] have "load 0 h2 v' = Some j0" unfolding e2 .
    with d1 d2 r2 js show ?case by simp
  qed simp
  from one many show ?case by blast
next
  case (Suc m)
  then have ihl: "\<exists>vs' h'. deepcopy_list m vs h = Some (vs', h') \<and> load_list m h' vs' = Some js"
    if "load_list m h vs = Some js" for h vs js using that by blast
  have one: "\<exists>v' h'. deepcopy (Suc m) v h = Some (v', h') \<and> load (Suc m) h' v' = Some j"
    if l: "load (Suc m) h v = Some j" for h v j
  proof (cases v)
    case (VRef a)
    from l VRef have a: "a < length h" by (simp split: if_splits)
    show ?thesis
    proof (cases "h ! a")
      case (OList vs)
      with l VRef a obtain js where ll: "load_list m h vs = Some js" and j: "j = JArr js"
        by (cases "load_list m h vs") auto
      from ihl[OF ll] obtain vs' h1 where d: "deepcopy_list m vs h = Some (vs', h1)"
        and r: "load_list m h1 vs' = Some js" by blast
      from load_append(2)[OF r, of "[OList vs']"] d a OList j VRef
      show ?thesis by simp
    next
      case (ODict fs)
      with l VRef a obtain js where ll: "load_list m h (map snd fs) = Some js"
        and j: "j = JObj (zip (map fst fs) js)"
        by (cases "load_list m h (map snd fs)") auto
      from ihl[OF ll] obtain vs' h1 where d: "deepcopy_list m (map snd fs) h = Some (vs', h1)"
        and r: "load_list m h1 vs' = Some js" by blast
      from deepcopy_region(2)[OF d] have len: "length vs' = length fs" by simp
      from load_append(2)[OF r, of "[ODict (zip (map fst fs) vs')]"] d a ODict j VRef len
      show ?thesis by simp
    qed
  qed (use l in simp_all)
  have many: "\<exists>vs' h'. deepcopy_list (Suc m) vs h = Some (vs', h') \<and> load_list (Suc m) h' vs' = Some js"
    if "load_list (Suc m) h vs = Some js" for h vs js
    using that
  proof (induction vs arbitrary: h js)
    case (Cons v vs)
    from Cons.prems obtain j0 where l1: "load (Suc m) h v = Some j0"
      by (cases "load (Suc m) h v") auto
    with Cons.prems obtain js0 where l2: "load_list (Suc m) h vs = Some js0" and js: "js = j0 # js0"
      by (cases "load_list (Suc m) h vs") auto
    from one[OF l1] obtain v' h1 where d1: "deepcopy (Suc m) v h = Some (v', h1)"
      and r1: "load (Suc m) h1 v' = Some j0" by blast
    from deepcopy_region(1)[OF d1] obtain new1 where e1: "h1 = h @ new1" by blast
    from load_append(2)[OF l2] have "load_list (Suc m) h1 vs = Some js0" unfolding e1 .
    from Cons.IH[OF this] obtain vs' h2 where d2: "deepcopy_list (Suc m) vs h1 = Some (vs', h2)"
      and r2: "load_list (Suc m) h2 vs' = Some js0" by blast
    from deepcopy_region(2)[OF d2] obtain new2 where e2: "h2 = h1 @ new2" by blast
    from load_append(1)[OF r1] have "load (Suc m) h2 v' = Some j0" unfolding e2 .
    with d1 d2 r2 js show ?case by simp
  qed simp
  from one many show ?case by blast
qed

lemma submit_all_copies:
  "load n h qb = Some plan \<Longrightarrow> load n h sb = Some scroll \<Longrightarrow>
     \<exists>cs h'. submit_all n qb sb ids h = Some (cs, h')
        \<and> (\<forall>c \<in> set cs. load n h' (fst c) = Some plan \<and> load n h' (snd c) = Some scroll)"
proof (induction ids arbitrary: h)
  case Nil
  then show ?case by simp
next
  case (Cons i ids)
  from deepcopy_load[of n] Cons.prems(1) obtain q h1 where d1: "deepcopy n qb h = Some (q, h1)"
    and r1: "load n h1 q = Some plan" by blast
  from deepcopy_region(1)[OF d1] obtain new1 where e1: "h1 = h @ new1" by blast
  from load_append(1)[OF Cons.prems(2)] have sb1: "load n h1 sb = Some scroll" unfolding e1 .
  from load_append(1)[OF Cons.prems(1)] have qb1: "load n h1 qb = Some plan" unfolding e1 .
  from deepcopy_load[of n] sb1 obtain s h2 where d2: "deepcopy n sb h1 = Some (s, h2)"
    and r2: "load n h2 s = Some scroll" by blast
  from deepcopy_region(1)[OF d2] obtain new2 where e2: "h2 = h1 @ new2" by blast
  from load_append(1)[OF qb1] have qb2: "load n h2 qb = Some plan" unfolding e2 .
  from load_append(1)[OF sb1] have sb2: "load n h2 sb = Some scroll" unfolding e2 .
  from load_append(1)[OF r1] have r1': "load n h2 q = Some plan" unfolding e2 .
  from Cons.IH[OF qb2 sb2] obtain cs h' where d3: "submit_all n qb sb ids h2 = Some (cs, h')"
    and r3: "\<forall>c \<in> set cs. load n h' (fst c) = Some plan \<and> load n h' (snd c) = Some scroll"
    by blast
  from submit_all_isolated[OF d3] obtain new3 where e3: "h' = h2 @ new3" by blast
  from load_append(1)[OF r1'] have q3: "load n h' q = Some plan" unfolding e3 .
  from load_append(1)[OF r2] have s3: "load n h' s = Some scroll" unfolding e3 .
  from d1 d2 d3 q3 s3 r3 show ?case by simp
qed

lemma load_list_field:
  "load_list m h (map snd fs) = Some js \<Longrightarrow> map_of (zip (map fst fs) js) k = Some j \<Longrightarrow>
     \<exists>v. map_of fs k = Some v \<and> load m h v = Some j"
proof (induction fs arbitrary: js)
  case (Cons f fs)
  from Cons.prems(1) obtain j0 where l1: "load m h (snd f) = Some j0"
    by (cases "load m h (snd f)") auto
  with Cons.prems(1) obtain js0 where l2: "load_list m h (map snd fs) = Some js0"
    and js: "js = j0 # js0"
    by (cases "load_list m h (map snd fs)") auto
  show ?case
  proof (cases "fst f = k")
    case True
    with Cons.prems(2) js have "j = j0" by simp
    with True l1 show ?thesis by (cases f) auto
  next
    case False
    with Cons.prems(2) js have "map_of (zip (map fst fs) js0) k = Some j" by simp
    from Cons.IH[OF l2 this] False show ?thesis by (cases f) auto
  qed
qed simp

lemma load_dict:
  assumes "load n h q = Some (JObj kvs)"
  shows "\<exists>m a fs js. n = Suc m \<and> q = VRef a \<and> a < length h \<and> h ! a = ODict fs
           \<and> load_list m h (map snd fs) = Some js \<and> kvs = zip (map fst fs) js"
proof (cases q)
  case (VRef a)
  with assms obtain m where n: "n = Suc m" by (cases n) simp_all
  from assms VRef n have a: "a < length h" by (simp split: if_splits)
  show ?thesis
  proof (cases "h ! a")
    case (ODict fs)
    with assms VRef n a show ?thesis
      by (cases "load_list m h (map snd fs)") auto
  next
    case (OList vs)
    with assms VRef n a show ?thesis
      by (cases "load_list m h vs") auto
  qed
qed (use assms in simp_all)

lemma assign_slice_id_succeeds:
  assumes l: "load n h q = Some plan" and sl: "py_getitem plan ''slice'' = Inr (JObj sl)"
  shows "\<exists>h''. assign_slice_id sid q h = Inr h''"
proof -
  from sl obtain kvs where plan: "plan = JObj kvs" and m: "map_of kvs ''slice'' = Some (JObj sl)"
    by (cases plan) (auto simp: py_getitem_def split: option.splits)
  from load_dict[OF l[unfolded plan]] obtain k a fs js where n: "n = Suc k" and q: "q = VRef a"
    and a: "a < length h" and ob: "h ! a = ODict fs"
    and ll: "load_list k h (map snd fs) = Some js" and kvs: "kvs = zip (map fst fs) js" by blast
  from load_list_field[OF ll m[unfolded kvs]] obtain v where v: "map_of fs ''slice'' = Some v"
    and lv: "load k h v = Some (JObj sl)" by blast
  from load_dict[OF lv] obtain s fs' where "v = VRef s" "s < length h" "h ! s = ODict fs'" by blast
  with q a ob v show ?thesis
    by (simp add: assign_slice_id_def ref_getitem_def ref_setitem_def)
qed

lemma assign_slice_id_length: "assign_slice_id sid q h = Inr h' \<Longrightarrow> length h' = length h"
  by (auto simp: assign_slice_id_def ref_setitem_def dest!: bind_err_Inr
      split: val.splits if_splits obj.splits)

lemma assign_scroll_id_length: "assign_scroll_id token v h = Inr h' \<Longrightarrow> length h' = length h"
  by (auto simp: assign_scroll_id_def ref_setitem_def split: val.splits if_splits obj.splits)

lemma assign_scroll_id_succeeds:
  assumes "load n h v = Some (JObj kvs)"
  shows "\<exists>h'. assign_scroll_id token v h = Inr h'"
proof -
  from load_dict[OF assms] obtain a fs where "v = VRef a" "a < length h" "h ! a = ODict fs"
    by blast
  then show ?thesis by (simp add: assign_scroll_id_def ref_setitem_def)
qed

text \<open>
  C9.  For a plan and a scroll body that read as JSON trees in the store, the coordinator
  hands every one of the \<open>NUM_SLICES\<close> workers its own deep copy of both, each reading as
  the template does.  The two assignments a worker makes into what it was handed succeed
  (the slice id into the plan, when the plan has a \<open>slice\<close> dict; a scroll id into the
  scroll body, when that is a dict).  After worker \<open>i\<close> has assigned its slice id, every
  object that existed before the copies were made is what it was, the template, the plans
  of all other workers and the scroll bodies of all workers read as before, and the plan
  of worker \<open>i\<close> holds \<open>i\<close> under \<open>slice\<close>, \<open>id\<close>.  After worker \<open>i\<close> has assigned a
  scroll id, likewise: the older objects, the template, the plans of all workers and the
  scroll bodies of all other workers are as before, and its own scroll body holds the id.
\<close>

theorem worker_copies_are_isolated:
  assumes tq: "load n h query_body = Some plan" and ts: "load n h scroll_body = Some scroll"
  shows "\<exists>cs h'. submit_all n query_body scroll_body [0..<NUM_SLICES] h = Some (cs, h')
      \<and> length cs = NUM_SLICES
      \<and> (\<forall>j<NUM_SLICES. load n h' (fst (cs ! j)) = Some plan \<and> load n h' (snd (cs ! j)) = Some scroll)
      \<and> (\<forall>i<NUM_SLICES.
            (\<forall>sl. py_getitem plan ''slice'' = Inr (JObj sl) \<longrightarrow>
                (\<exists>h''. assign_slice_id (int i) (fst (cs ! i)) h' = Inr h''))
          \<and> (\<forall>kvs token. scroll = JObj kvs \<longrightarrow>
                (\<exists>h''. assign_scroll_id token (snd (cs ! i)) h' = Inr h'')))
      \<and> (\<forall>i h''. i < NUM_SLICES \<and> assign_slice_id (int i) (fst (cs ! i)) h' = Inr h'' \<longrightarrow>
            (\<forall>a<length h. h'' ! a = h ! a)
          \<and> load n h'' query_body = Some plan \<and> load n h'' scroll_body = Some scroll
          \<and> (\<forall>j<NUM_SLICES. (j \<noteq> i \<longrightarrow> load n h'' (fst (cs ! j)) = Some plan)
                \<and> load n h'' (snd (cs ! j)) = Some scroll)
          \<and> bind_err (ref_getitem h'' (fst (cs ! i)) ''slice'') (\<lambda>sl. ref_getitem h'' sl ''id'')
              = Inr (VInt (int i)))
      \<and> (\<forall>i token h''. i < NUM_SLICES \<and> assign_scroll_id token (snd (cs ! i)) h' = Inr h'' \<longrightarrow>
            (\<forall>a<length h. h'' ! a = h ! a)
          \<and> load n h'' query_body = Some plan \<and> load n h'' scroll_body = Some scroll
          \<and> (\<forall>j<NUM_SLICES. load n h'' (fst (cs ! j)) = Some plan
                \<and> (j \<noteq> i \<longrightarrow> load n h'' (snd (cs ! j)) = Some scroll))
          \<and> ref_getitem h'' (snd (cs ! i)) ''scroll_id'' = Inr token)"
proof -
  from submit_all_copies[OF tq ts, of "[0..<NUM_SLICES]"] obtain cs h'
    where sub: "submit_all n query_body scroll_body [0..<NUM_SLICES] h = Some (cs, h')"
      and reads: "\<forall>c \<in> set cs. load n h' (fst c) = Some plan \<and> load n h' (snd c) = Some scroll"
    by blast
  from submit_all_isolated[OF sub] obtain new where ext: "h' = h @ new"
    and len: "length cs = NUM_SLICES"
    and iso: "isolated (length h) (handed cs) (length h') h'"
    by auto
  have copies: "load n h' (fst (cs ! j)) = Some plan \<and> load n h' (snd (cs ! j)) = Some scroll"
    if "j < NUM_SLICES" for j
    using reads that len by simp
  have at: "2 * j < length (handed cs) \<and> Suc (2 * j) < length (handed cs)
      \<and> handed cs ! (2 * j) = fst (cs ! j) \<and> handed cs ! Suc (2 * j) = snd (cs ! j)"
    if "j < NUM_SLICES" for j
    using that len handed_nth[of j cs] by (simp add: handed_length)
  have succeeds: "(\<forall>sl. py_getitem plan ''slice'' = Inr (JObj sl) \<longrightarrow>
                (\<exists>h''. assign_slice_id (int i) (fst (cs ! i)) h' = Inr h''))
          \<and> (\<forall>kvs token. scroll = JObj kvs \<longrightarrow>
                (\<exists>h''. assign_scroll_id token (snd (cs ! i)) h' = Inr h''))"
    if "i < NUM_SLICES" for i
    using assign_slice_id_succeeds[of n h' "fst (cs ! i)" plan] 
      assign_scroll_id_succeeds[of n h' "snd (cs ! i)"] copies[OF that] by blast
  have slice: "(\<forall>a<length h. h'' ! a = h ! a)
          \<and> load n h'' query_body = Some plan \<and> load n h'' scroll_body = Some scroll
          \<and> (\<forall>j<NUM_SLICES. (j \<noteq> i \<longrightarrow> load n h'' (fst (cs ! j)) = Some plan)
                \<and> load n h'' (snd (cs ! j)) = Some scroll)
          \<and> bind_err (ref_getitem h'' (fst (cs ! i)) ''slice'') (\<lambda>sl. ref_getitem h'' sl ''id'')
              = Inr (VInt (int i))"
    if i: "i < NUM_SLICES" and asg: "assign_slice_id (int i) (fst (cs ! i)) h' = Inr h''" for i h''
  proof -
    from at[OF i] have p: "2 * i < length (handed cs)"
      and pv: "handed cs ! (2 * i) = fst (cs ! i)" by simp_all
    have lands: "\<exists>s ob. a \<le> s \<and> s < b \<and> h'' = h'[s := ob]"
      if "closed a b h'" "fresh a b (handed cs ! (2 * i))" for a b
      using assign_slice_id_frame[OF asg _ that(1)] that(2) pv by simp
    note F = write_frame[OF iso ext p lands]
    from F have old: "\<forall>a<length h. h'' ! a = h ! a" by blast
    have le: "length h \<le> length h''" using assign_slice_id_length[OF asg] ext by simp
    from load_agree(1)[OF tq le old] have t1: "load n h'' query_body = Some plan" .
    from load_agree(1)[OF ts le old] have t2: "load n h'' scroll_body = Some scroll" .
    have others: "(j \<noteq> i \<longrightarrow> load n h'' (fst (cs ! j)) = Some plan)
                \<and> load n h'' (snd (cs ! j)) = Some scroll"
      if j: "j < NUM_SLICES" for j
    proof -
      from at[OF j] have r1: "2 * j < length (handed cs)" and r2: "Suc (2 * j) < length (handed cs)"
        and v1: "handed cs ! (2 * j) = fst (cs ! j)"
        and v2: "handed cs ! Suc (2 * j) = snd (cs ! j)" by simp_all
      have ne2: "Suc (2 * j) \<noteq> 2 * i" by presburger
      from F r2 ne2 have "load n h'' (handed cs ! Suc (2 * j)) = load n h' (handed cs ! Suc (2 * j))"
        by blast
      then have s: "load n h'' (snd (cs ! j)) = Some scroll" using v2 copies[OF j] by simp
      have "load n h'' (fst (cs ! j)) = Some plan" if "j \<noteq> i"
      proof -
        from that have "2 * j \<noteq> 2 * i" by simp
        with F r1 have "load n h'' (handed cs ! (2 * j)) = load n h' (handed cs ! (2 * j))"
          by blast
        then show ?thesis using v1 copies[OF j] by simp
      qed
      with s show ?thesis by blast
    qed
    from old t1 t2 others assign_slice_id_reads[OF asg] show ?thesis by blast
  qed
  have scroll: "(\<forall>a<length h. h'' ! a = h ! a)
          \<and> load n h'' query_body = Some plan \<and> load n h'' scroll_body = Some scroll
          \<and> (\<forall>j<NUM_SLICES. load n h'' (fst (cs ! j)) = Some plan
                \<and> (j \<noteq> i \<longrightarrow> load n h'' (snd (cs ! j)) = Some scroll))
          \<and> ref_getitem h'' (snd (cs ! i)) ''scroll_id'' = Inr token"
    if i: "i < NUM_SLICES" and asg: "assign_scroll_id token (snd (cs ! i)) h' = Inr h''"
    for i token h''
  proof -
    from at[OF i] have p: "Suc (2 * i) < length (handed cs)"
      and pv: "handed cs ! Suc (2 * i) = snd (cs ! i)" by simp_all
    have lands: "\<exists>s ob. a \<le> s \<and> s < b \<and> h'' = h'[s := ob]"
      if "closed a b h'" "fresh a b (handed cs ! Suc (2 * i))" for a b
      using assign_scroll_id_frame[OF asg] that(2) pv by simp
    note F = write_frame[OF iso ext p lands]
    from F have old: "\<forall>a<length h. h'' ! a = h ! a" by blast
    have le: "length h \<le> length h''" using assign_scroll_id_length[OF asg] ext by simp
    from load_agree(1)[OF tq le old] have t1: "load n h'' query_body = Some plan" .
    from load_agree(1)[OF ts le old] have t2: "load n h'' scroll_body = Some scroll" .
    have others: "load n h'' (fst (cs ! j)) = Some plan
                \<and> (j \<noteq> i \<longrightarrow> load n h'' (snd (cs ! j)) = Some scroll)"
      if j: "j < NUM_SLICES" for j
    proof -
      from at[OF j] have r1: "2 * j < length (handed cs)" and r2: "Suc (2 * j) < length (handed cs)"
        and v1: "handed cs ! (2 * j) = fst (cs ! j)"
        and v2: "handed cs ! Suc (2 * j) = snd (cs ! j)" by simp_all
      have ne1: "2 * j \<noteq> Suc (2 * i)" by presburger
      from F r1 ne1 have "load n h'' (handed cs ! (2 * j)) = load n h' (handed cs ! (2 * j))"
        by blast
      then have q: "load n h'' (fst (cs ! j)) = Some plan" using v1 copies[OF j] by simp
      have "load n h'' (snd (cs ! j)) = Some scroll" if "j \<noteq> i"
      proof -
        from that have "Suc (2 * j) \<noteq> Suc (2 * i)" by simp
        with F r2 have "load n h'' (handed cs ! Suc (2 * j)) = load n h' (handed cs ! Suc (2 * j))"
          by blast
        then show ?thesis using v2 copies[OF j] by simp
      qed
      with q show ?thesis by blast
    qed
    from old t1 t2 others assign_scroll_id_reads[OF asg] show ?thesis by blast
  qed
  from sub len copies succeeds slice scroll show ?thesis by blast
qed

theorem worker_copies_are_isolated_witness:
  "\<exists>cs h' h1 h2.
      submit_all 2 (fst template) (fst (snd template)) [0..<NUM_SLICES] (snd (snd template)) = Some (cs, h')
    \<and> load 2 h' (fst (cs ! 4)) = Some (JObj (JSON_SLICE @ JSON_SIZE @ JSON_SORT))
    \<and> load 2 h' (snd (cs ! 4)) = Some JSON_SCROLL_BODY
    \<and> assign_slice_id 4 (fst (cs ! 4)) h' = Inr h1
    \<and> h1 ! 3 = snd (snd template) ! 3
    \<and> load 2 h1 (fst template) = Some (JObj (JSON_SLICE @ JSON_SIZE @ JSON_SORT))
    \<and> load 2 h1 (fst (cs ! 7)) = Some (JObj (JSON_SLICE @ JSON_SIZE @ JSON_SORT))
    \<and> load 2 h1 (snd (cs ! 4)) = Some JSON_SCROLL_BODY
    \<and> bind_err (ref_getitem h1 (fst (cs ! 4)) ''slice'') (\<lambda>sl. ref_getitem h1 sl ''id'') = Inr (VInt 4)
    \<and> assign_scroll_id (VStr ''c1'') (snd (cs ! 4)) h' = Inr h2
    \<and> h2 ! 0 = snd (snd template) ! 0
    \<and> load 2 h2 (fst (snd template)) = Some JSON_SCROLL_BODY
    \<and> load 2 h2 (snd (cs ! 7)) = Some JSON_SCROLL_BODY
    \<and> load 2 h2 (fst (cs ! 4)) = Some (JObj (JSON_SLICE @ JSON_SIZE @ JSON_SORT))
    \<and> ref_getitem h2 (snd (cs ! 4)) ''scroll_id'' = Inr (VStr ''c1'')"
proof -
  let ?plan = "JObj (JSON_SLICE @ JSON_SIZE @ JSON_SORT)"
  have tq: "load 2 (snd (snd template)) (fst template) = Some ?plan"
    by (simp add: template_eval json_texts NUM_SLICES_def BATCH_SIZE_def)
  have ts: "load 2 (snd (snd template)) (fst (snd template)) = Some JSON_SCROLL_BODY"
    by (simp add: template_eval JSON_SCROLL_BODY_def ES_KEEP_ALIVE_def)
  from worker_copies_are_isolated[OF tq ts] obtain cs h' where
    sub: "submit_all 2 (fst template) (fst (snd template)) [0..<NUM_SLICES] (snd (snd template)) = Some (cs, h')"
    and copies: "\<forall>j<NUM_SLICES. load 2 h' (fst (cs ! j)) = Some ?plan
          \<and> load 2 h' (snd (cs ! j)) = Some JSON_SCROLL_BODY"
    and succeeds: "\<forall>i<NUM_SLICES.
            (\<forall>sl. py_getitem ?plan ''slice'' = Inr (JObj sl) \<longrightarrow>
                (\<exists>h''. assign_slice_id (int i) (fst (cs ! i)) h' = Inr h''))
          \<and> (\<forall>kvs token. JSON_SCROLL_BODY = JObj kvs \<longrightarrow>
                (\<exists>h''. assign_scroll_id token (snd (cs ! i)) h' = Inr h''))"
    and slice: "\<forall>i h''. i < NUM_SLICES \<and> assign_slice_id (int i) (fst (cs ! i)) h' = Inr h'' \<longrightarrow>
            (\<forall>a<length (snd (snd template)). h'' ! a = snd (snd template) ! a)
          \<and> load 2 h'' (fst template) = Some ?plan
          \<and> load 2 h'' (fst (snd template)) = Some JSON_SCROLL_BODY
          \<and> (\<forall>j<NUM_SLICES. (j \<noteq> i \<longrightarrow> load 2 h'' (fst (cs ! j)) = Some ?plan)
                \<and> load 2 h'' (snd (cs ! j)) = Some JSON_SCROLL_BODY)
          \<and> bind_err (ref_getitem h'' (fst (cs ! i)) ''slice'') (\<lambda>sl. ref_getitem h'' sl ''id'')
              = Inr (VInt (int i))"
    and scroll: "\<forall>i token h''. i < NUM_SLICES \<and> assign_scroll_id token (snd (cs ! i)) h' = Inr h'' \<longrightarrow>
            (\<forall>a<length (snd (snd template)). h'' ! a = snd (snd template) ! a)
          \<and> load 2 h'' (fst template) = Some ?plan
          \<and> load 2 h'' (fst (snd template)) = Some JSON_SCROLL_BODY
          \<and> (\<forall>j<NUM_SLICES. load 2 h'' (fst (cs ! j)) = Some ?plan
                \<and> (j \<noteq> i \<longrightarrow> load 2 h'' (snd (cs ! j)) = Some JSON_SCROLL_BODY))
          \<and> ref_getitem h'' (snd (cs ! i)) ''scroll_id'' = Inr token"
    by blast
  have i: "4 < NUM_SLICES" and j: "7 < NUM_SLICES" by (simp_all add: NUM_SLICES_def)
  have sl: "py_getitem ?plan ''slice''
      = Inr (JObj [(''id'', JInt (- 1)), (''max'', JInt (int NUM_SLICES))])"
    by (simp add: py_getitem_def json_texts)
  have sb: "JSON_SCROLL_BODY = JObj [(''scroll'', JStr ES_KEEP_ALIVE), (''scroll_id'', JStr '''')]"
    by (simp add: JSON_SCROLL_BODY_def)
  from succeeds[rule_format, OF i] sl obtain h1 where
    a1: "assign_slice_id (int 4) (fst (cs ! 4)) h' = Inr h1" by blast
  from succeeds[rule_format, OF i] sb obtain h2 where
    a2: "assign_scroll_id (VStr ''c1'') (snd (cs ! 4)) h' = Inr h2" by blast
  note F1 = slice[rule_format, OF conjI[OF i a1]]
  note F2 = scroll[rule_format, OF conjI[OF i a2]]
  have a: "3 < length (snd (snd template))" "0 < length (snd (snd template))"
    by (simp_all add: template_eval)
  from F1 a have o1: "h1 ! 3 = snd (snd template) ! 3" by blast
  from F2 a have o2: "h2 ! 0 = snd (snd template) ! 0" by blast
  from F1 have t1: "load 2 h1 (fst template) = Some ?plan" by blast
  from F2 have t2: "load 2 h2 (fst (snd template)) = Some JSON_SCROLL_BODY" by blast
  from F1 i j have p1: "load 2 h1 (fst (cs ! 7)) = Some ?plan"
    "load 2 h1 (snd (cs ! 4)) = Some JSON_SCROLL_BODY" by simp_all
  from F2 i j have p2: "load 2 h2 (snd (cs ! 7)) = Some JSON_SCROLL_BODY"
    "load 2 h2 (fst (cs ! 4)) = Some ?plan" by simp_all
  from F1 have own1: "bind_err (ref_getitem h1 (fst (cs ! 4)) ''slice'') (\<lambda>sl. ref_getitem h1 sl ''id'')
      = Inr (VInt 4)" by simp
  from F2 have own2: "ref_getitem h2 (snd (cs ! 4)) ''scroll_id'' = Inr (VStr ''c1'')" by blast
  from a1 have a1': "assign_slice_id 4 (fst (cs ! 4)) h' = Inr h1" by simp
  from copies[rule_format, OF i] have c4: "load 2 h' (fst (cs ! 4)) = Some ?plan"
    "load 2 h' (snd (cs ! 4)) = Some JSON_SCROLL_BODY" by simp_all
  show ?thesis
    apply (rule exI[of _ cs], rule exI[of _ h'], rule exI[of _ h1], rule exI[of _ h2])
    using sub c4 a1' o1 t1 p1 own1 a2 o2 t2 p2 own2 by simp
qed

end
